theory Spec2Isabelle
  imports Main "HOL-Library.AList" "HOL-Library.Char_ord" "HOL-Library.List_Lexorder"
begin

section \<open>Values, rows, parent records\<close>

text \<open>
  The loader of \<^verbatim>\<open>jessiql/engine/jselectinloader.py\<close> works on plain Python dicts
  (\<^verbatim>\<open>SARowDict\<close>). A column value is \<^verbatim>\<open>None\<close>, an integer or a string; after a load a
  parent dict also holds, under the relationship's name, a child dict, a list of child
  dicts, or \<^verbatim>\<open>None\<close>.
\<close>

datatype val =
    VNone
  | VInt int
  | VStr string
  | VList "val list"
  | VDict "(string \<times> val) list"

text \<open>A fetched row mapping, and the mutable \<^verbatim>\<open>dict(row)\<close> made from it: an insertion-ordered
  association list.\<close>

type_synonym row = "(string \<times> val) list"

text \<open>A parent record (\<^verbatim>\<open>state_dict\<close>) is a mutable dict. Parent dicts are shared by
  reference between the caller's list and the loader's groupings, so they live in a store
  and the lists hold their addresses.\<close>

type_synonym state_dict = "string \<rightharpoonup> val"
type_synonym addr = nat
type_synonym heap = "addr \<Rightarrow> state_dict"

datatype error =
    AssertionError
  | KeyError string
  | TypeError
  | IndexError
  | ExecutionError

text \<open>The parameter bound to \<^verbatim>\<open>primary_keys\<close>: \<^verbatim>\<open>key[0]\<close> (a scalar) when
  \<^verbatim>\<open>zero_idx\<close> is set, else the tuple \<^verbatim>\<open>key\<close> itself.\<close>

datatype bound = Scalar val | Tuple "val list"

text \<open>What a consumer of the generator can observe, in order: a query execution with its
  bound key list, an assignment \<^verbatim>\<open>state_dict[self.key] = v\<close>, a warning, a yielded row.\<close>

datatype event =
    Execute "bound list"
  | Populate addr val
  | Warn
  | Yield row

type_synonym outcome = "heap \<times> event list \<times> error option"

type_synonym executor = "bound list \<Rightarrow> error + row list"

record mapper =
  primary_key :: "string list"

record query_info =
  load_with_join :: bool
  load_only_child :: bool
  child_lookup_cols :: "string list"
  pk_cols :: "string list"
  zero_idx :: bool

text \<open>\<^verbatim>\<open>CHUNKSIZE\<close> is \<^verbatim>\<open>sa.orm.strategies.SelectInLoader._chunksize\<close>, a constant of
  SQLAlchemy that is not part of this repository: it is a field of the loader here.\<close>

record JSelectInLoader =
  key :: string
  uselist :: bool
  source_mapper :: mapper
  target_mapper :: mapper
  query_info :: query_info
  CHUNKSIZE :: nat

record prepared =
  our_states_dict :: "(val list \<times> addr list) list"
  none_states :: "addr list"
  our_states_list :: "(val list \<times> addr) list"

section \<open>Key tuples\<close>

text \<open>A comprehension whose element expression can raise: the first failure aborts it.\<close>

fun traverse :: "('a \<Rightarrow> error + 'b) \<Rightarrow> 'a list \<Rightarrow> error + 'b list" where
  "traverse f [] = Inr []"
| "traverse f (x # xs) =
     (case f x of
        Inl e \<Rightarrow> Inl e
      | Inr y \<Rightarrow> (case traverse f xs of Inl e \<Rightarrow> Inl e | Inr ys \<Rightarrow> Inr (y # ys)))"

text \<open>\<^verbatim>\<open>row[col.key]\<close>: a missing key raises \<^verbatim>\<open>KeyError\<close>.\<close>

definition getitem :: "(string \<rightharpoonup> val) \<Rightarrow> string \<Rightarrow> error + val" where
  "getitem d c = (case d c of None \<Rightarrow> Inl (KeyError c) | Some v \<Rightarrow> Inr v)"

definition get_primary_key_tuple :: "mapper \<Rightarrow> (string \<rightharpoonup> val) \<Rightarrow> error + val list" where
  "get_primary_key_tuple m r = traverse (getitem r) (primary_key m)"

definition get_foreign_key_tuple :: "(string \<rightharpoonup> val) \<Rightarrow> query_info \<Rightarrow> error + val list" where
  "get_foreign_key_tuple r qi = traverse (getitem r) (pk_cols qi)"

text \<open>A tuple is hashable (usable as a dict key) when its components are: lists and dicts
  are not.\<close>

fun hashable :: "val \<Rightarrow> bool" where
  "hashable (VList _) = False"
| "hashable (VDict _) = False"
| "hashable _ = True"

text \<open>Python's \<^verbatim>\<open><\<close> on column values: defined between two integers and between two
  strings; \<^verbatim>\<open>None\<close> is the \<^verbatim>\<open>TypeError\<close> of any other pairing.\<close>

fun val_less :: "val \<Rightarrow> val \<Rightarrow> bool option" where
  "val_less (VInt a) (VInt b) = Some (a < b)"
| "val_less (VStr a) (VStr b) = Some (a < b)"
| "val_less _ _ = None"

text \<open>Python's \<^verbatim>\<open><\<close> on tuples: the first position where the tuples differ decides; if
  there is none the shorter tuple is the smaller.\<close>

fun tuple_less :: "val list \<Rightarrow> val list \<Rightarrow> bool option" where
  "tuple_less [] [] = Some False"
| "tuple_less [] (y # ys) = Some True"
| "tuple_less (x # xs) [] = Some False"
| "tuple_less (x # xs) (y # ys) = (if x = y then tuple_less xs ys else val_less x y)"

fun insert_key :: "val list \<Rightarrow> val list list \<Rightarrow> val list list" where
  "insert_key k [] = [k]"
| "insert_key k (x # xs) =
     (if tuple_less k x = Some True then k # x # xs else x # insert_key k xs)"

text \<open>\<^verbatim>\<open>sorted(our_states)\<close> on the keys of a dict (pairwise distinct tuples): the ascending
  arrangement, or \<^verbatim>\<open>TypeError\<close> when two of the keys cannot be ordered.\<close>

definition sorted_keys :: "val list list \<Rightarrow> error + val list list" where
  "sorted_keys ks =
     (if \<forall>a \<in> set ks. \<forall>b \<in> set ks. tuple_less a b \<noteq> None
      then Inr (foldr insert_key ks [])
      else Inl TypeError)"

section \<open>prepare_states\<close>

text \<open>\<^verbatim>\<open>our_states[related_ident].append(state_dict)\<close> on a \<^verbatim>\<open>defaultdict(list)\<close>.\<close>

definition dict_append :: "'k \<Rightarrow> 'v \<Rightarrow> ('k \<times> 'v list) list \<Rightarrow> ('k \<times> 'v list) list" where
  "dict_append k v d =
     AList.update k ((case map_of d k of None \<Rightarrow> [] | Some vs \<Rightarrow> vs) @ [v]) d"

text \<open>The loop of the MANYTOONE branch, with the two collections it fills.\<close>

fun collect_states ::
  "query_info \<Rightarrow> heap \<Rightarrow> addr list \<Rightarrow> (val list \<times> addr list) list \<Rightarrow> addr list
   \<Rightarrow> error + ((val list \<times> addr list) list \<times> addr list)" where
  "collect_states qi h [] our none = Inr (our, none)"
| "collect_states qi h (a # as) our none =
     (case traverse (getitem (h a)) (child_lookup_cols qi) of
        Inl e \<Rightarrow> Inl e
      | Inr related_ident \<Rightarrow>
          if VNone \<notin> set related_ident then
            (if list_all hashable related_ident
             then collect_states qi h as (dict_append related_ident a our) none
             else Inl TypeError)
          else collect_states qi h as our (none @ [a]))"

definition pair_state :: "mapper \<Rightarrow> heap \<Rightarrow> addr \<Rightarrow> error + (val list \<times> addr)" where
  "pair_state m h a =
     (case get_primary_key_tuple m (h a) of Inl e \<Rightarrow> Inl e | Inr k \<Rightarrow> Inr (k, a))"

definition prepare_states :: "JSelectInLoader \<Rightarrow> heap \<Rightarrow> addr list \<Rightarrow> error + prepared" where
  "prepare_states L h states =
     (if load_with_join (query_info L) then Inl AssertionError
      else if load_only_child (query_info L) then
        (case collect_states (query_info L) h states [] [] of
           Inl e \<Rightarrow> Inl e
         | Inr (our, none) \<Rightarrow>
             Inr \<lparr>our_states_dict = our, none_states = none, our_states_list = []\<rparr>)
      else
        (case traverse (pair_state (source_mapper L) h) states of
           Inl e \<Rightarrow> Inl e
         | Inr ps \<Rightarrow>
             Inr \<lparr>our_states_dict = [], none_states = [], our_states_list = ps\<rparr>))"

section \<open>fetch_results_and_populate_states\<close>

definition setitem :: "string \<Rightarrow> addr \<Rightarrow> val \<Rightarrow> heap \<Rightarrow> heap" where
  "setitem f a v h = h(a := (h a)(f \<mapsto> v))"

text \<open>A run of assignments \<^verbatim>\<open>state_dict[self.key] = v\<close>, in order.\<close>

fun assign_all :: "string \<Rightarrow> (addr \<times> val) list \<Rightarrow> heap \<Rightarrow> heap" where
  "assign_all f [] h = h"
| "assign_all f ((a, v) # ws) h = assign_all f ws (setitem f a v h)"

definition bind_key :: "bool \<Rightarrow> val list \<Rightarrow> error + bound" where
  "bind_key zi k =
     (if zi then (case k of [] \<Rightarrow> Inl IndexError | v # _ \<Rightarrow> Inr (Scalar v))
      else Inr (Tuple k))"

text \<open>The shared loop \<^verbatim>\<open>while pending: chunk = pending[0:CHUNKSIZE]; pending =
  pending[CHUNKSIZE:]; ...\<close> of both paths. The body is run on each chunk; an exception
  raised by the body ends the generator, with everything written so far kept. With
  \<^verbatim>\<open>CHUNKSIZE = 0\<close> the loop never ends: the result is \<open>None\<close>.\<close>

partial_function (option) drain ::
  "nat \<Rightarrow> ('a list \<Rightarrow> heap \<Rightarrow> outcome) \<Rightarrow> 'a list \<Rightarrow> heap \<Rightarrow> event list \<Rightarrow> outcome option"
where
  "drain n body pending h tr =
     (case pending of
        [] \<Rightarrow> Some (h, tr, None)
      | _ # _ \<Rightarrow>
          (case body (take n pending) h of
             (h', evs, Some e) \<Rightarrow> Some (h', tr @ evs, Some e)
           | (h', evs, None) \<Rightarrow> drain n body (drop n pending) h' (tr @ evs)))"

declare drain.simps [code]

subsection \<open>_load_via_child (MANYTOONE)\<close>

text \<open>The dict comprehension \<^verbatim>\<open>{get_primary_key_tuple(target_mapper, row): dict(row) for
  row in ...}\<close>: a later row with the same key replaces the value, the key keeps its place.\<close>

fun child_data :: "mapper \<Rightarrow> row list \<Rightarrow> (val list \<times> row) list \<Rightarrow> error + (val list \<times> row) list"
where
  "child_data m [] d = Inr d"
| "child_data m (r # rs) d =
     (case get_primary_key_tuple m (map_of r) of
        Inl e \<Rightarrow> Inl e
      | Inr k \<Rightarrow>
          if list_all hashable k then child_data m rs (AList.update k r d)
          else Inl TypeError)"

text \<open>\<^verbatim>\<open>related_obj = data.get(key, None)\<close> and the value assigned from it,
  \<^verbatim>\<open>related_obj if not uselist else [related_obj]\<close>.\<close>

definition related_obj :: "(val list \<times> row) list \<Rightarrow> val list \<Rightarrow> val" where
  "related_obj d k = (case map_of d k of None \<Rightarrow> VNone | Some r \<Rightarrow> VDict r)"

definition child_value :: "bool \<Rightarrow> (val list \<times> row) list \<Rightarrow> val list \<Rightarrow> val" where
  "child_value ul d k = (if \<not> ul then related_obj d k else VList [related_obj d k])"

text \<open>The assignments of one chunk, in the order the two loops make them: for each key of
  the chunk every parent of its group; then, still inside the \<^verbatim>\<open>while\<close> body, every parent
  of \<^verbatim>\<open>none_states\<close>.\<close>

definition group_of :: "(val list \<times> addr list) list \<Rightarrow> val list \<Rightarrow> addr list" where
  "group_of our k = (case map_of our k of None \<Rightarrow> [] | Some as \<Rightarrow> as)"

definition child_writes ::
  "bool \<Rightarrow> (val list \<times> addr list) list \<Rightarrow> addr list \<Rightarrow> (val list \<times> row) list \<Rightarrow> val list list
   \<Rightarrow> (addr \<times> val) list" where
  "child_writes ul our none d chunk =
     concat (map (\<lambda>k. map (\<lambda>a. (a, child_value ul d k)) (group_of our k)) chunk)
     @ map (\<lambda>a. (a, VNone)) none"

definition via_child_chunk ::
  "JSelectInLoader \<Rightarrow> executor \<Rightarrow> (val list \<times> addr list) list \<Rightarrow> addr list
   \<Rightarrow> val list list \<Rightarrow> heap \<Rightarrow> outcome" where
  "via_child_chunk L exec our none chunk h =
     (case traverse (bind_key (zero_idx (query_info L))) chunk of
        Inl e \<Rightarrow> (h, [], Some e)
      | Inr primary_keys \<Rightarrow>
          (case exec primary_keys of
             Inl e \<Rightarrow> (h, [Execute primary_keys], Some e)
           | Inr rows \<Rightarrow>
               (case child_data (target_mapper L) rows [] of
                  Inl e \<Rightarrow> (h, [Execute primary_keys], Some e)
                | Inr d \<Rightarrow>
                    (let ws = child_writes (uselist L) our none d chunk
                     in (assign_all (key L) ws h,
                         Execute primary_keys # map (\<lambda>(a, v). Populate a v) ws
                           @ map Yield (map snd d),
                         None)))))"

definition load_via_child ::
  "JSelectInLoader \<Rightarrow> executor \<Rightarrow> (val list \<times> addr list) list \<Rightarrow> addr list \<Rightarrow> heap
   \<Rightarrow> outcome option" where
  "load_via_child L exec our none h =
     (case sorted_keys (map fst our) of
        Inl e \<Rightarrow> Some (h, [], Some e)
      | Inr our_keys \<Rightarrow>
          drain (CHUNKSIZE L) (via_child_chunk L exec our none) our_keys h [])"

subsection \<open>_load_via_parent (ONETOMANY, MANYTOMANY)\<close>

text \<open>\<^verbatim>\<open>for k, v in itertools.groupby(rows, key): data[k].extend(map(dict, v))\<close> on a
  \<^verbatim>\<open>defaultdict(list)\<close>. The rows of a run of equal keys are appended to the list of that
  key one after the other, so the loop is the same as appending row by row; the key of a
  row is computed (and may raise) when the iteration reaches the row.\<close>

fun parent_data ::
  "query_info \<Rightarrow> row list \<Rightarrow> (val list \<times> row list) list \<Rightarrow> error + (val list \<times> row list) list"
where
  "parent_data qi [] d = Inr d"
| "parent_data qi (r # rs) d =
     (case get_foreign_key_tuple (map_of r) qi of
        Inl e \<Rightarrow> Inl e
      | Inr k \<Rightarrow>
          if list_all hashable k then parent_data qi rs (dict_append k r d)
          else Inl TypeError)"

text \<open>\<^verbatim>\<open>collection = data.get(key, _empty_result())\<close>: a list of rows, or Python's
  \<^verbatim>\<open>None\<close> (here \<open>None\<close>) for a singular relationship without a match.\<close>

definition empty_result :: "bool \<Rightarrow> row list option" where
  "empty_result ul = (if ul then Some [] else None)"

definition data_get :: "bool \<Rightarrow> (val list \<times> row list) list \<Rightarrow> val list \<Rightarrow> row list option" where
  "data_get ul d k = (case map_of d k of None \<Rightarrow> empty_result ul | Some rs \<Rightarrow> Some rs)"

text \<open>The body of \<^verbatim>\<open>for key, state_dict in chunk\<close> for one parent: the assignment, the
  warning, and \<^verbatim>\<open>yield from collection\<close>, which raises \<^verbatim>\<open>TypeError\<close> when the collection
  is \<^verbatim>\<open>None\<close>.\<close>

definition populate_parent ::
  "JSelectInLoader \<Rightarrow> (val list \<times> row list) list \<Rightarrow> val list \<times> addr \<Rightarrow> heap \<Rightarrow> outcome" where
  "populate_parent L d p h =
     (case p of (k, a) \<Rightarrow>
        if \<not> list_all hashable k then (h, [], Some TypeError)
        else
          (case data_get (uselist L) d k of
             None \<Rightarrow> (setitem (key L) a VNone h, [Populate a VNone], Some TypeError)
           | Some [] \<Rightarrow>
               (setitem (key L) a (VList []) h, [Populate a (VList [])], None)
           | Some (r # rs) \<Rightarrow>
               if \<not> uselist L then
                 (setitem (key L) a (VDict r) h,
                  (if length (r # rs) > 1 then [Warn] else [])
                    @ Populate a (VDict r) # map Yield (r # rs),
                  None)
               else
                 (setitem (key L) a (VList (map VDict (r # rs))) h,
                  Populate a (VList (map VDict (r # rs))) # map Yield (r # rs),
                  None)))"

fun populate_parents ::
  "JSelectInLoader \<Rightarrow> (val list \<times> row list) list \<Rightarrow> (val list \<times> addr) list \<Rightarrow> heap \<Rightarrow> outcome"
where
  "populate_parents L d [] h = (h, [], None)"
| "populate_parents L d (p # ps) h =
     (case populate_parent L d p h of
        (h', evs, Some e) \<Rightarrow> (h', evs, Some e)
      | (h', evs, None) \<Rightarrow>
          (case populate_parents L d ps h' of (h'', evs', r) \<Rightarrow> (h'', evs @ evs', r)))"

definition via_parent_chunk ::
  "JSelectInLoader \<Rightarrow> executor \<Rightarrow> (val list \<times> addr) list \<Rightarrow> heap \<Rightarrow> outcome" where
  "via_parent_chunk L exec chunk h =
     (case traverse (bind_key (zero_idx (query_info L))) (map fst chunk) of
        Inl e \<Rightarrow> (h, [], Some e)
      | Inr primary_keys \<Rightarrow>
          (case exec primary_keys of
             Inl e \<Rightarrow> (h, [Execute primary_keys], Some e)
           | Inr rows \<Rightarrow>
               (case parent_data (query_info L) rows [] of
                  Inl e \<Rightarrow> (h, [Execute primary_keys], Some e)
                | Inr d \<Rightarrow>
                    (case populate_parents L d chunk h of
                       (h', evs, r) \<Rightarrow> (h', Execute primary_keys # evs, r)))))"

definition load_via_parent ::
  "JSelectInLoader \<Rightarrow> executor \<Rightarrow> (val list \<times> addr) list \<Rightarrow> heap \<Rightarrow> outcome option" where
  "load_via_parent L exec our h = drain (CHUNKSIZE L) (via_parent_chunk L exec) our h []"

definition fetch_results_and_populate_states ::
  "JSelectInLoader \<Rightarrow> executor \<Rightarrow> prepared \<Rightarrow> heap \<Rightarrow> outcome option" where
  "fetch_results_and_populate_states L exec p h =
     (if load_only_child (query_info L)
      then load_via_child L exec (our_states_dict p) (none_states p) h
      else load_via_parent L exec (our_states_list p) h)"

text \<open>One whole load call: \<^verbatim>\<open>prepare_states\<close>, then the generator consumed to its end.\<close>

definition load :: "JSelectInLoader \<Rightarrow> executor \<Rightarrow> heap \<Rightarrow> addr list \<Rightarrow> outcome option" where
  "load L exec h states =
     (case prepare_states L h states of
        Inl e \<Rightarrow> Some (h, [], Some e)
      | Inr p \<Rightarrow> fetch_results_and_populate_states L exec p h)"

section \<open>prepare_query\<close>

text \<open>\<^verbatim>\<open>prepare_query\<close> adds to the base query the filter
  \<^verbatim>\<open>in_expr.in_(bindparam("primary_keys"))\<close>. The base query is taken as the rows it
  selects, in their order; \<^verbatim>\<open>in_expr\<close> is the expression over the columns \<^verbatim>\<open>pk_cols\<close> (the
  single column when \<^verbatim>\<open>zero_idx\<close> is set, else their tuple). Executing the prepared query
  with a bound list keeps the rows whose \<^verbatim>\<open>in_expr\<close> value is in the list.\<close>

definition in_expr :: "query_info \<Rightarrow> row \<Rightarrow> bound option" where
  "in_expr qi r =
     (case traverse (getitem (map_of r)) (pk_cols qi) of
        Inl e \<Rightarrow> None
      | Inr k \<Rightarrow> (case bind_key (zero_idx qi) k of Inl e \<Rightarrow> None | Inr b \<Rightarrow> Some b))"

definition prepare_query :: "JSelectInLoader \<Rightarrow> row list \<Rightarrow> executor" where
  "prepare_query L q primary_keys =
     Inr (filter (\<lambda>r. case in_expr (query_info L) r of
                         None \<Rightarrow> False
                       | Some b \<Rightarrow> b \<in> set primary_keys) q)"

section \<open>Observations on a run\<close>

text \<open>The relationship fields of the given parents after the run, the trace and the
  exception that ended the generator, if any.\<close>

definition observe ::
  "outcome option \<Rightarrow> string \<Rightarrow> addr list \<Rightarrow> (val option list \<times> event list \<times> error option) option"
where
  "observe out f as = map_option (\<lambda>(h, tr, e). (map (\<lambda>a. h a f) as, tr, e)) out"

text \<open>The bound key lists of the executed queries, in order, and their number.\<close>

fun executed :: "event list \<Rightarrow> bound list list" where
  "executed [] = []"
| "executed (Execute bs # tr) = bs # executed tr"
| "executed (_ # tr) = executed tr"

definition queries :: "event list \<Rightarrow> nat" where
  "queries tr = length (executed tr)"

text \<open>The slices the loop takes, for a positive chunk size.\<close>

function chunked :: "nat \<Rightarrow> 'a list \<Rightarrow> 'a list list" where
  "chunked n xs = (if xs = [] \<or> n = 0 then [] else take n xs # chunked n (drop n xs))"
  by pat_completeness auto
termination
  by (relation "measure (\<lambda>(n, xs). length xs)") auto

text \<open>The body run over a given list of chunks, stopping at the first exception.\<close>

fun run_chunks :: "('a list \<Rightarrow> heap \<Rightarrow> outcome) \<Rightarrow> 'a list list \<Rightarrow> heap \<Rightarrow> event list \<Rightarrow> outcome"
where
  "run_chunks body [] h tr = (h, tr, None)"
| "run_chunks body (c # cs) h tr =
     (case body c h of
        (h', evs, Some e) \<Rightarrow> (h', tr @ evs, Some e)
      | (h', evs, None) \<Rightarrow> run_chunks body cs h' (tr @ evs))"

definition ceil_div :: "nat \<Rightarrow> nat \<Rightarrow> nat" where
  "ceil_div m n = (m + n - 1) div n"

text \<open>The number of grouped entries the driver drains: the keys of the dict in the
  MANYTOONE path, the pairs of the list in the other.\<close>

definition group_count :: "JSelectInLoader \<Rightarrow> prepared \<Rightarrow> nat" where
  "group_count L p =
     (if load_only_child (query_info L) then length (our_states_dict p)
      else length (our_states_list p))"

text \<open>``No row of a batch is yielded before every parent of the batch is written'': the
  parents of each successive batch are given; \<open>pending\<close> holds those of the current batch
  not yet written.\<close>

fun batch_done :: "addr list list \<Rightarrow> addr list \<Rightarrow> event list \<Rightarrow> bool" where
  "batch_done bs pending [] = True"
| "batch_done bs pending (Execute _ # tr) =
     (case bs of [] \<Rightarrow> batch_done [] [] tr | b # bs' \<Rightarrow> batch_done bs' b tr)"
| "batch_done bs pending (Populate a _ # tr) = batch_done bs (removeAll a pending) tr"
| "batch_done bs pending (Yield _ # tr) = (pending = [] \<and> batch_done bs pending tr)"
| "batch_done bs pending (Warn # tr) = batch_done bs pending tr"

text \<open>The parents of the batches of each path.\<close>

definition child_batches ::
  "nat \<Rightarrow> (val list \<times> addr list) list \<Rightarrow> addr list \<Rightarrow> val list list \<Rightarrow> addr list list" where
  "child_batches n our none our_keys =
     map (\<lambda>chunk. concat (map (group_of our) chunk) @ none) (chunked n our_keys)"

definition parent_batches :: "nat \<Rightarrow> (val list \<times> addr) list \<Rightarrow> addr list list" where
  "parent_batches n our = map (map snd) (chunked n our)"

section \<open>Concrete relationships and records\<close>

text \<open>A MANYTOONE relationship \<^verbatim>\<open>parent\<close>: the parent row holds \<^verbatim>\<open>parent_id\<close>, pointing at
  the target's \<^verbatim>\<open>id\<close>.\<close>

definition many_to_one :: "bool \<Rightarrow> nat \<Rightarrow> JSelectInLoader" where
  "many_to_one ul n =
     \<lparr>key = ''parent'', uselist = ul,
      source_mapper = \<lparr>primary_key = [''id'']\<rparr>,
      target_mapper = \<lparr>primary_key = [''id'']\<rparr>,
      query_info = \<lparr>load_with_join = False, load_only_child = True,
                    child_lookup_cols = [''parent_id''], pk_cols = [''id''],
                    zero_idx = True\<rparr>,
      CHUNKSIZE = n\<rparr>"

text \<open>A ONETOMANY relationship \<^verbatim>\<open>children\<close>: the target row holds \<^verbatim>\<open>owner_id\<close>, pointing
  at the parent's \<^verbatim>\<open>id\<close>.\<close>

definition one_to_many :: "bool \<Rightarrow> nat \<Rightarrow> JSelectInLoader" where
  "one_to_many ul n =
     \<lparr>key = ''children'', uselist = ul,
      source_mapper = \<lparr>primary_key = [''id'']\<rparr>,
      target_mapper = \<lparr>primary_key = [''id'']\<rparr>,
      query_info = \<lparr>load_with_join = False, load_only_child = False,
                    child_lookup_cols = [], pk_cols = [''owner_id''],
                    zero_idx = True\<rparr>,
      CHUNKSIZE = n\<rparr>"

definition store :: "state_dict list \<Rightarrow> heap" where
  "store ds a = (if a < length ds then ds ! a else Map.empty)"

definition child_of :: "int \<Rightarrow> val \<Rightarrow> state_dict" where
  "child_of i p = [''id'' \<mapsto> VInt i, ''parent_id'' \<mapsto> p]"

definition owner :: "int \<Rightarrow> state_dict" where
  "owner i = [''id'' \<mapsto> VInt i]"

definition target_row :: "int \<Rightarrow> string \<Rightarrow> row" where
  "target_row i n = [(''id'', VInt i), (''name'', VStr n)]"

definition owned_row :: "int \<Rightarrow> int \<Rightarrow> row" where
  "owned_row i j = [(''id'', VInt i), (''owner_id'', VInt j)]"

text \<open>A base query with \<^verbatim>\<open>LIMIT n\<close>: the executor keeps the first \<open>n\<close> rows.\<close>

definition with_limit :: "nat \<Rightarrow> executor \<Rightarrow> executor" where
  "with_limit n exec primary_keys =
     (case exec primary_keys of Inl e \<Rightarrow> Inl e | Inr rows \<Rightarrow> Inr (take n rows))"

text \<open>The assignments recorded in a trace, in order.\<close>

fun writes :: "event list \<Rightarrow> (addr \<times> val) list" where
  "writes [] = []"
| "writes (Populate a v # tr) = (a, v) # writes tr"
| "writes (_ # tr) = writes tr"

text \<open>The trace of a run (empty for a run that never ends).\<close>

definition trace_of :: "outcome option \<Rightarrow> event list" where
  "trace_of out = (case out of None \<Rightarrow> [] | Some (h, tr, r) \<Rightarrow> tr)"

text \<open>``Whenever a row is yielded, every parent of the batch that produced it has been
  written'', for the batches of the path the loader takes.\<close>

definition batch_populated_before_yield :: "JSelectInLoader \<Rightarrow> prepared \<Rightarrow> event list \<Rightarrow> bool"
where
  "batch_populated_before_yield L p tr =
     (if load_only_child (query_info L) then
        (case sorted_keys (map fst (our_states_dict p)) of
           Inl e \<Rightarrow> True
         | Inr our_keys \<Rightarrow>
             batch_done (child_batches (CHUNKSIZE L) (our_states_dict p) (none_states p) our_keys)
               [] tr)
      else batch_done (parent_batches (CHUNKSIZE L) (our_states_list p)) [] tr)"

definition yields_after_batch :: "JSelectInLoader \<Rightarrow> executor \<Rightarrow> heap \<Rightarrow> addr list \<Rightarrow> bool" where
  "yields_after_batch L exec h states =
     (case prepare_states L h states of
        Inl e \<Rightarrow> True
      | Inr p \<Rightarrow>
          batch_populated_before_yield L p
            (trace_of (fetch_results_and_populate_states L exec p h)))"

text \<open>Strictly ascending order of key tuples, and of bound parameters.\<close>

definition key_lt :: "val list \<Rightarrow> val list \<Rightarrow> bool" where
  "key_lt a b = (tuple_less a b = Some True)"

fun bound_lt :: "bound \<Rightarrow> bound \<Rightarrow> bool" where
  "bound_lt (Scalar a) (Scalar b) = (val_less a b = Some True)"
| "bound_lt (Tuple a) (Tuple b) = key_lt a b"
| "bound_lt _ _ = False"

text \<open>``The keys of every batch are sorted when its query is executed''.\<close>

definition batches_sorted :: "event list \<Rightarrow> bool" where
  "batches_sorted tr = list_all (sorted_wrt bound_lt) (executed tr)"

text \<open>The value last assigned to a parent in a run of assignments, if any.\<close>

definition last_write :: "(addr \<times> val) list \<Rightarrow> addr \<Rightarrow> val option" where
  "last_write ws a = map_of (rev ws) a"

text \<open>The relationship fields of the given parents after a run.\<close>

definition final_fields :: "outcome option \<Rightarrow> string \<Rightarrow> addr list \<Rightarrow> val option list option" where
  "final_fields out f as = map_option (\<lambda>(h, tr, r). map (\<lambda>a. h a f) as) out"

text \<open>The value \<^verbatim>\<open>_load_via_child\<close> assigns for a key when the rows come from the prepared
  query over the base rows \<open>q\<close>: the last row of \<open>q\<close> with that primary key, if any.\<close>

definition matched_row :: "JSelectInLoader \<Rightarrow> row list \<Rightarrow> val list \<Rightarrow> row option" where
  "matched_row L q k =
     (case filter (\<lambda>r. get_primary_key_tuple (target_mapper L) (map_of r) = Inr k) q of
        [] \<Rightarrow> None
      | rs \<Rightarrow> Some (last rs))"

definition matched_value :: "JSelectInLoader \<Rightarrow> row list \<Rightarrow> val list \<Rightarrow> val" where
  "matched_value L q k =
     (let obj = (case matched_row L q k of None \<Rightarrow> VNone | Some r \<Rightarrow> VDict r)
      in if \<not> uselist L then obj else VList [obj])"

text \<open>The rows of \<open>q\<close> that \<^verbatim>\<open>_load_via_parent\<close> groups under a key, and the value it assigns
  from them when it does not raise.\<close>

definition matched_rows :: "JSelectInLoader \<Rightarrow> row list \<Rightarrow> val list \<Rightarrow> row list" where
  "matched_rows L q k =
     filter (\<lambda>r. get_foreign_key_tuple (map_of r) (query_info L) = Inr k) q"

definition collection_value :: "JSelectInLoader \<Rightarrow> row list \<Rightarrow> val list \<Rightarrow> val" where
  "collection_value L q k =
     (case matched_rows L q k of
        [] \<Rightarrow> (if uselist L then VList [] else VNone)
      | r # rs \<Rightarrow> (if uselist L then VList (map VDict (r # rs)) else VDict r))"

text \<open>Among the keys of a list under which a parent is grouped, the value of the last.\<close>

definition pick :: "('k \<Rightarrow> val) \<Rightarrow> ('k \<Rightarrow> bool) \<Rightarrow> 'k list \<Rightarrow> val option" where
  "pick V P ks = (case filter P ks of [] \<Rightarrow> None | ys \<Rightarrow> Some (V (last ys)))"

text \<open>``A row is yielded only right after the assignment to the parent under whose key it
  was grouped, or after another row of that parent'': \<open>cur\<close> is the parent assigned last,
  with nothing but yielded rows since (no parent after a query or a warning). A yielded row
  must have, as its foreign-key tuple, the key paired with that parent.\<close>

fun yields_owned :: "query_info \<Rightarrow> (val list \<times> addr) list \<Rightarrow> addr option \<Rightarrow> event list \<Rightarrow> bool"
where
  "yields_owned qi our cur [] = True"
| "yields_owned qi our cur (Execute _ # tr) = yields_owned qi our None tr"
| "yields_owned qi our cur (Populate a _ # tr) = yields_owned qi our (Some a) tr"
| "yields_owned qi our cur (Warn # tr) = yields_owned qi our None tr"
| "yields_owned qi our cur (Yield r # tr) =
     ((case cur of
         None \<Rightarrow> False
       | Some a \<Rightarrow>
           list_ex (\<lambda>(k, a'). a' = a \<and> get_foreign_key_tuple (map_of r) qi = Inr k) our)
      \<and> yields_owned qi our cur tr)"

section \<open>Evaluations\<close>

text \<open>
  C1. Completeness fails on the code: the loop that writes \<^verbatim>\<open>None\<close> into the parents of
  \<^verbatim>\<open>none_states\<close> stands inside the \<^verbatim>\<open>while\<close> body of \<^verbatim>\<open>_load_via_child\<close>. For the single
  parent \<^verbatim>\<open>{id: 2, parent_id: None}\<close> there is no key, so no batch runs: the generator
  ends without an exception, without a query, and the field \<^verbatim>\<open>parent\<close> of the parent is
  still absent.
\<close>

theorem none_states_unset_without_batch:
  "observe (load (many_to_one False 500)
              (prepare_query (many_to_one False 500) [target_row 5 ''X''])
              (store [child_of 2 VNone]) [0]) ''parent'' [0]
   = Some ([None], [], None)"
  by code_simp

text \<open>
  C2. A singular relationship loaded by \<^verbatim>\<open>_load_via_parent\<close> (a one-to-one), with two
  parents \<^verbatim>\<open>{id: 10}\<close> and \<^verbatim>\<open>{id: 20}\<close> and no target row for either. The first
  parent is set to \<^verbatim>\<open>None\<close>; then \<^verbatim>\<open>yield from collection\<close> raises \<^verbatim>\<open>TypeError\<close> on
  \<^verbatim>\<open>None\<close>, so the second parent, which has no matching row either, is not set to
  \<^verbatim>\<open>None\<close>: its field stays absent.
\<close>

theorem unmatched_singular_parent_left_unset:
  "observe (load (one_to_many False 500)
              (prepare_query (one_to_many False 500) [owned_row 300 30])
              (store [owner 10, owner 20]) [0, 1]) ''children'' [0, 1]
   = Some ([Some VNone, None],
           [Execute [Scalar (VInt 10), Scalar (VInt 20)], Populate 0 VNone],
           Some TypeError)"
  by code_simp

text \<open>
  C5. Two parents with a null foreign key and no other parent: no query is executed, so
  no null key is ever bound, but the relationship field of both parents stays absent
  instead of being \<^verbatim>\<open>None\<close>.
\<close>

theorem null_key_parents_not_resolved:
  "observe (load (many_to_one False 500)
              (prepare_query (many_to_one False 500) [target_row 5 ''X''])
              (store [child_of 1 VNone, child_of 2 VNone]) [0, 1]) ''parent'' [0, 1]
   = Some ([None, None], [], None)"
  by code_simp

text \<open>
  C9. A singular relationship loaded by \<^verbatim>\<open>_load_via_parent\<close>: parent \<^verbatim>\<open>{id: 10}\<close> has no
  row, parent \<^verbatim>\<open>{id: 20}\<close> has one. The first parent is set to \<^verbatim>\<open>None\<close>, then
  \<^verbatim>\<open>yield from collection\<close> raises \<^verbatim>\<open>TypeError\<close> on \<^verbatim>\<open>None\<close>, and the second parent of the
  batch is never written.
\<close>

theorem singular_via_parent_unmatched_raises:
  "observe (load (one_to_many False 500)
              (prepare_query (one_to_many False 500) [owned_row 200 20])
              (store [owner 10, owner 20]) [0, 1]) ''children'' [0, 1]
   = Some ([Some VNone, None],
           [Execute [Scalar (VInt 10), Scalar (VInt 20)], Populate 0 VNone],
           Some TypeError)"
  by code_simp

section \<open>Failing comprehensions\<close>

lemma traverse_Inr_all:
  "traverse f xs = Inr ys \<Longrightarrow> \<forall>x \<in> set xs. \<exists>y. f x = Inr y"
  by (induction xs arbitrary: ys) (auto split: sum.splits)

lemma traverse_Inl_elem:
  "traverse f xs = Inl e \<Longrightarrow> \<exists>x \<in> set xs. f x = Inl e"
  by (induction xs) (auto split: sum.splits)

lemma traverse_Inr_map:
  "traverse f xs = Inr ys \<Longrightarrow> map f xs = map Inr ys"
  by (induction xs arbitrary: ys) (auto split: sum.splits)

lemma getitem_Inl: "getitem d c = Inl e \<Longrightarrow> d c = None \<and> e = KeyError c"
  by (auto simp: getitem_def split: option.splits)

lemma pair_state_Inl:
  "pair_state m h a = Inl e \<Longrightarrow> \<exists>c \<in> set (primary_key m). h a c = None \<and> e = KeyError c"
  by (auto simp: pair_state_def get_primary_key_tuple_def split: sum.splits
           dest!: traverse_Inl_elem getitem_Inl)

lemma pair_state_missing:
  "c \<in> set (primary_key m) \<Longrightarrow> h a c = None \<Longrightarrow> \<exists>e. pair_state m h a = Inl e"
  by (cases "pair_state m h a")
     (auto simp: pair_state_def get_primary_key_tuple_def getitem_def split: sum.splits
           dest!: traverse_Inr_all)

text \<open>
  C4. In the ONETOMANY/MANYTOMANY branch of \<^verbatim>\<open>prepare_states\<close>, if some parent record
  lacks a primary-key column of the source mapper, the call fails: it raises the
  \<^verbatim>\<open>KeyError\<close> of a primary-key column that a parent record lacks (the error the
  specification calls \<^verbatim>\<open>IncompleteRecordError\<close>), no grouping is produced, and the load
  call ends with that error before any query or assignment.
\<close>

theorem incomplete_record_fails:
  assumes "\<not> load_with_join (query_info L)" and "\<not> load_only_child (query_info L)"
    and "a \<in> set states" and "c \<in> set (primary_key (source_mapper L))" and "h a c = None"
  shows "\<exists>a' \<in> set states. \<exists>c' \<in> set (primary_key (source_mapper L)).
           h a' c' = None \<and> prepare_states L h states = Inl (KeyError c')
           \<and> load L exec h states = Some (h, [], Some (KeyError c'))"
proof (cases "traverse (pair_state (source_mapper L) h) states")
  case (Inl e)
  then obtain a' where a': "a' \<in> set states" "pair_state (source_mapper L) h a' = Inl e"
    by (auto dest: traverse_Inl_elem)
  then obtain c' where "c' \<in> set (primary_key (source_mapper L))" "h a' c' = None" "e = KeyError c'"
    by (auto dest: pair_state_Inl)
  with a' Inl assms(1,2) show ?thesis
    by (auto simp: prepare_states_def load_def)
next
  case (Inr ps)
  from pair_state_missing[of c "source_mapper L" h a] assms(4,5)
  obtain e where "pair_state (source_mapper L) h a = Inl e" by blast
  with traverse_Inr_all[OF Inr] assms(3) show ?thesis by fastforce
qed

theorem incomplete_record_fails_witness:
  "\<exists>c'. prepare_states (one_to_many True 500)
          (store [owner 10, Map.empty(''name'' \<mapsto> VStr ''x'')]) [0, 1] = Inl (KeyError c')
        \<and> load (one_to_many True 500) (prepare_query (one_to_many True 500) [owned_row 100 10])
            (store [owner 10, Map.empty(''name'' \<mapsto> VStr ''x'')]) [0, 1]
          = Some (store [owner 10, Map.empty(''name'' \<mapsto> VStr ''x'')], [], Some (KeyError c'))"
  using incomplete_record_fails
          [of "one_to_many True 500" 1 "[0, 1]" "''id''"
              "store [owner 10, Map.empty(''name'' \<mapsto> VStr ''x'')]"
              "prepare_query (one_to_many True 500) [owned_row 100 10]"]
  by (auto simp: one_to_many_def store_def)

section \<open>The chunking loop\<close>

declare chunked.simps [simp del]

lemma chunked_Nil [simp]: "chunked n [] = []"
  by (simp add: chunked.simps)

lemma chunked_Cons:
  "0 < n \<Longrightarrow> chunked n (x # xs) = take n (x # xs) # chunked n (drop n (x # xs))"
  by (subst chunked.simps) simp

lemma drain_Nil [simp]: "drain n body [] h tr = Some (h, tr, None)"
  by (subst drain.simps) simp

lemma drain_Cons:
  "drain n body (x # xs) h tr =
     (case body (take n (x # xs)) h of
        (h', evs, Some e) \<Rightarrow> Some (h', tr @ evs, Some e)
      | (h', evs, None) \<Rightarrow> drain n body (drop n (x # xs)) h' (tr @ evs))"
  by (subst drain.simps) simp

text \<open>With a positive chunk size the loop ends: it is the body run over the slices.\<close>

lemma drain_chunked:
  "0 < n \<Longrightarrow> drain n body xs h tr = Some (run_chunks body (chunked n xs) h tr)"
proof (induction "length xs" arbitrary: xs h tr rule: less_induct)
  case less
  show ?case
  proof (cases xs)
    case Nil
    then show ?thesis by simp
  next
    case (Cons x xs')
    have len: "length (drop n (x # xs')) < length xs"
      using Cons less.prems by simp
    obtain h' evs r where b: "body (take n (x # xs')) h = (h', evs, r)"
      by (cases "body (take n (x # xs')) h") auto
    show ?thesis
    proof (cases r)
      case None
      with b Cons less.prems less.hyps[OF len less.prems, of h' "tr @ evs"] show ?thesis
        by (simp add: drain_Cons chunked_Cons)
    next
      case (Some e)
      with b Cons less.prems show ?thesis
        by (simp add: drain_Cons chunked_Cons)
    qed
  qed
qed

text \<open>An invariant of heap and trace kept by the body is kept by the loop, whatever the chunk size.\<close>

lemma drain_invariant:
  assumes "drain n body xs h tr = Some (h', tr', r)"
    and "I h tr"
    and "\<And>c h tr h1 evs r. I h tr \<Longrightarrow> body c h = (h1, evs, r) \<Longrightarrow> I h1 (tr @ evs)"
  shows "I h' tr'"
proof -
  let ?P = "\<lambda>(n::nat) (body :: 'a list \<Rightarrow> heap \<Rightarrow> outcome) (pending :: 'a list) h tr (out :: outcome).
              I h tr \<longrightarrow>
              (\<forall>c h tr h1 evs r. I h tr \<longrightarrow> body c h = (h1, evs, r) \<longrightarrow> I h1 (tr @ evs)) \<longrightarrow>
              I (fst out) (fst (snd out))"
  have "?P n body xs h tr (h', tr', r)"
  proof (rule drain.raw_induct[where P = ?P, OF _ assms(1)], goal_cases)
    case (1 drain n body pending h tr out)
    show ?case
    proof (cases pending)
      case Nil
      with 1(2) show ?thesis by auto
    next
      case (Cons x xs)
      obtain h1 evs r where b: "body (take n pending) h = (h1, evs, r)"
        by (cases "body (take n pending) h") auto
      show ?thesis
      proof (cases r)
        case None
        with 1(2) Cons b have "drain n body (drop n pending) h1 (tr @ evs) = Some out" by simp
        note ih = 1(1)[OF this]
        show ?thesis
        proof (intro impI)
          assume i: "I h tr"
            and st: "\<forall>c h tr h1 evs r. I h tr \<longrightarrow> body c h = (h1, evs, r) \<longrightarrow> I h1 (tr @ evs)"
          from st i b have "I h1 (tr @ evs)" by blast
          with ih st show "I (fst out) (fst (snd out))" by blast
        qed
      next
        case (Some e)
        with 1(2) Cons b have "out = (h1, tr @ evs, Some e)" by simp
        with b show ?thesis by (simp, blast)
      qed
    qed
  qed
  with assms(2,3) show ?thesis by auto
qed

section \<open>The final store is the replay of the recorded assignments\<close>

lemma setitem_other: "f' \<noteq> f \<Longrightarrow> setitem f a v h b f' = h b f'"
  by (simp add: setitem_def)

lemma assign_all_append: "assign_all f (xs @ ys) h = assign_all f ys (assign_all f xs h)"
  by (induction f xs h rule: assign_all.induct) auto

lemma assign_all_other: "f' \<noteq> f \<Longrightarrow> assign_all f ws h b f' = h b f'"
  by (induction f ws h rule: assign_all.induct) (auto simp: setitem_other)

lemma writes_append [simp]: "writes (xs @ ys) = writes xs @ writes ys"
  by (induction xs rule: writes.induct) auto

lemma writes_Populates [simp]: "writes (map (\<lambda>(a, v). Populate a v) ws) = ws"
  by (induction ws) auto

lemma writes_Yields [simp]: "writes (map Yield rs) = []"
  by (induction rs) auto

lemma writes_Yields_comp [simp]: "writes (map (Yield \<circ> g) rs) = []"
  by (induction rs) auto

lemma via_child_chunk_replay:
  "via_child_chunk L exec our none c h = (h', evs, r) \<Longrightarrow> h' = assign_all (key L) (writes evs) h"
  by (auto simp: via_child_chunk_def Let_def split: sum.splits)

lemma populate_parent_replay:
  "populate_parent L d p h = (h', evs, r) \<Longrightarrow> h' = assign_all (key L) (writes evs) h"
  by (cases p) (auto simp: populate_parent_def split: if_splits option.splits list.splits)

lemma populate_parents_replay:
  "populate_parents L d ps h = (h', evs, r) \<Longrightarrow> h' = assign_all (key L) (writes evs) h"
proof (induction ps arbitrary: h h' evs r)
  case Nil
  then show ?case by simp
next
  case (Cons p ps)
  obtain h1 e1 r1 where p1: "populate_parent L d p h = (h1, e1, r1)"
    by (cases "populate_parent L d p h") auto
  note rp = populate_parent_replay[OF p1]
  show ?case
  proof (cases r1)
    case None
    obtain h2 e2 r2 where p2: "populate_parents L d ps h1 = (h2, e2, r2)"
      by (cases "populate_parents L d ps h1") auto
    from Cons.IH[OF p2] Cons.prems p1 p2 None rp show ?thesis
      by (auto simp: assign_all_append)
  next
    case (Some e)
    with Cons.prems p1 rp show ?thesis by auto
  qed
qed

lemma via_parent_chunk_replay:
  "via_parent_chunk L exec c h = (h', evs, r) \<Longrightarrow> h' = assign_all (key L) (writes evs) h"
  by (auto simp: via_parent_chunk_def split: sum.splits prod.splits dest: populate_parents_replay)

lemma drain_replay:
  assumes "drain n body xs h [] = Some (h', tr, r)"
    and "\<And>c h h1 evs r. body c h = (h1, evs, r) \<Longrightarrow> h1 = assign_all f (writes evs) h"
  shows "h' = assign_all f (writes tr) h"
  by (rule drain_invariant[OF assms(1), where I = "\<lambda>h1 tr1. h1 = assign_all f (writes tr1) h"])
     (auto simp: assign_all_append dest: assms(2))

lemma load_via_child_replay:
  "load_via_child L exec our none h = Some (h', tr, r) \<Longrightarrow> h' = assign_all (key L) (writes tr) h"
  by (auto simp: load_via_child_def split: sum.splits
           elim: drain_replay dest: via_child_chunk_replay)

lemma load_via_parent_replay:
  "load_via_parent L exec our h = Some (h', tr, r) \<Longrightarrow> h' = assign_all (key L) (writes tr) h"
  by (auto simp: load_via_parent_def elim: drain_replay dest: via_parent_chunk_replay)

lemma load_replay:
  "load L exec h states = Some (h', tr, r) \<Longrightarrow> h' = assign_all (key L) (writes tr) h"
  by (auto simp: load_def fetch_results_and_populate_states_def split: sum.splits if_splits
           dest: load_via_child_replay load_via_parent_replay)

section \<open>The generator ends\<close>

lemma drain_total:
  assumes "0 < n"
  shows "\<exists>h' tr' r. drain n body xs h tr = Some (h', tr', r)"
proof -
  obtain h' tr' r where "run_chunks body (chunked n xs) h tr = (h', tr', r)"
    by (metis prod_cases3)
  with assms show ?thesis by (simp add: drain_chunked)
qed

lemma load_via_child_total:
  assumes "0 < CHUNKSIZE L"
  shows "\<exists>h' tr r. load_via_child L exec our none h = Some (h', tr, r)"
proof (cases "sorted_keys (map fst our)")
  case (Inl e)
  then show ?thesis by (simp add: load_via_child_def)
next
  case (Inr ks)
  with drain_total[OF assms] show ?thesis by (simp add: load_via_child_def)
qed

lemma load_via_parent_total:
  "0 < CHUNKSIZE L \<Longrightarrow> \<exists>h' tr r. load_via_parent L exec our h = Some (h', tr, r)"
  unfolding load_via_parent_def by (rule drain_total)

lemma load_total:
  assumes "0 < CHUNKSIZE L"
  shows "\<exists>h' tr r. load L exec h states = Some (h', tr, r)"
proof (cases "prepare_states L h states")
  case (Inl e)
  then show ?thesis by (simp add: load_def)
next
  case (Inr p)
  with load_via_child_total[OF assms] load_via_parent_total[OF assms] show ?thesis
    by (simp add: load_def fetch_results_and_populate_states_def)
qed

text \<open>
  C10. Across a whole load call only the field named by the relationship key is ever
  written: \<^verbatim>\<open>prepare_states\<close> only reads the parent records (it returns groupings and no
  store), and after \<^verbatim>\<open>fetch_results_and_populate_states\<close>, however it ends, every other
  field of every record in the store has the value it had before.
\<close>

theorem only_relationship_field_written:
  assumes "load L exec h states = Some (h', tr, r)" and "f \<noteq> key L"
  shows "h' a f = h a f"
  using load_replay[OF assms(1)] assms(2) by (simp add: assign_all_other)

theorem only_relationship_field_written_witness:
  "\<exists>h' tr r. load (many_to_one False 500)
                (prepare_query (many_to_one False 500) [target_row 5 ''X''])
                (store [child_of 1 (VInt 5), child_of 2 VNone, child_of 3 (VInt 5)]) [0, 1, 2]
              = Some (h', tr, r)
            \<and> ''parent_id'' \<noteq> key (many_to_one False 500)
            \<and> h' 0 ''parent_id'' = Some (VInt 5)"
proof -
  let ?L = "many_to_one False 500"
  let ?h = "store [child_of 1 (VInt 5), child_of 2 VNone, child_of 3 (VInt 5)]"
  have "0 < CHUNKSIZE ?L" by (simp add: many_to_one_def)
  from load_total[OF this] obtain h' tr r
    where run: "load ?L (prepare_query ?L [target_row 5 ''X'']) ?h [0, 1, 2] = Some (h', tr, r)"
    by blast
  have ne: "''parent_id'' \<noteq> key ?L" by (simp add: many_to_one_def)
  from only_relationship_field_written[OF run ne, of 0]
  have "h' 0 ''parent_id'' = Some (VInt 5)" by (simp add: store_def child_of_def)
  with run ne show ?thesis by blast
qed

section \<open>The trace of a run over chunks\<close>

lemma run_chunks_acc:
  "run_chunks body cs h tr = (case run_chunks body cs h [] of (h', t, r) \<Rightarrow> (h', tr @ t, r))"
proof (induction cs arbitrary: h tr)
  case Nil
  then show ?case by simp
next
  case (Cons c cs)
  obtain h1 evs r1 where b: "body c h = (h1, evs, r1)" by (metis prod_cases3)
  show ?case
  proof (cases r1)
    case None
    with b Cons.IH[of h1 "tr @ evs"] Cons.IH[of h1 evs] show ?thesis
      by (simp split: prod.splits)
  next
    case (Some e)
    with b show ?thesis by simp
  qed
qed

lemma run_chunks_Cons:
  "run_chunks body (c # cs) h [] =
     (case body c h of
        (h', evs, Some e) \<Rightarrow> (h', evs, Some e)
      | (h', evs, None) \<Rightarrow> (case run_chunks body cs h' [] of (h'', t, r) \<Rightarrow> (h'', evs @ t, r)))"
proof -
  obtain h1 evs r1 where b: "body c h = (h1, evs, r1)" by (metis prod_cases3)
  show ?thesis
  proof (cases r1)
    case None
    with b run_chunks_acc[of body cs h1 evs] show ?thesis by simp
  next
    case (Some e)
    with b show ?thesis by simp
  qed
qed

section \<open>Population and yielding, batch by batch\<close>

lemma via_child_chunk_shape:
  assumes "via_child_chunk L exec our none c h = (h', evs, r)"
  shows "(r \<noteq> None \<and> (evs = [] \<or> (\<exists>x. evs = [Execute x])))
       \<or> (r = None \<and> (\<exists>x d. evs = Execute x
              # map (\<lambda>(a, v). Populate a v) (child_writes (uselist L) our none d c)
              @ map Yield (map snd d)))"
  using assms by (auto simp: via_child_chunk_def Let_def split: sum.splits)

lemma fst_child_writes:
  "map fst (child_writes ul our none d c) = concat (map (group_of our) c) @ none"
  by (simp add: child_writes_def map_concat comp_def)

lemma batch_done_Populates:
  "batch_done bs pending (map (\<lambda>(a, v). Populate a v) ws @ tr)
   = batch_done bs (filter (\<lambda>a. a \<notin> set (map fst ws)) pending) tr"
proof (induction ws arbitrary: pending)
  case Nil
  then show ?case by simp
next
  case (Cons w ws)
  obtain a v where w: "w = (a, v)" by (cases w)
  have "filter (\<lambda>x. x \<notin> set (map fst ws)) (removeAll a pending)
      = filter (\<lambda>x. x \<notin> set (map fst (w # ws))) pending"
    by (induction pending) (auto simp: w)
  with Cons.IH[of "removeAll a pending"] w show ?case by simp
qed

lemma batch_done_Yields:
  "batch_done bs [] (map Yield rs @ tr) = batch_done bs [] tr"
  by (induction rs) auto

lemma batch_done_child_chunk:
  "batch_done ((concat (map (group_of our) c) @ none) # bs) pending
     (Execute x # map (\<lambda>(a, v). Populate a v) (child_writes ul our none d c)
        @ map Yield (map snd d) @ tr)
   = batch_done bs [] tr"
proof -
  have "filter (\<lambda>a. a \<notin> set (map fst (child_writes ul our none d c)))
          (concat (map (group_of our) c) @ none) = []"
    unfolding fst_child_writes by (simp add: filter_empty_conv)
  then show ?thesis
    by (simp add: batch_done_Populates batch_done_Yields del: map_map map_append)
qed

lemma batch_done_run_child:
  "run_chunks (via_child_chunk L exec our none) cs h [] = (h', tr, r)
   \<Longrightarrow> batch_done (map (\<lambda>chunk. concat (map (group_of our) chunk) @ none) cs) pending tr"
proof (induction cs arbitrary: h h' tr r pending)
  case Nil
  then show ?case by simp
next
  case (Cons c cs)
  obtain h1 evs r1 where b: "via_child_chunk L exec our none c h = (h1, evs, r1)"
    by (metis prod_cases3)
  show ?case
  proof (cases r1)
    case (Some e)
    with b Cons.prems have "tr = evs" by (simp add: run_chunks_Cons del: run_chunks.simps)
    with via_child_chunk_shape[OF b] Some show ?thesis by auto
  next
    case None
    obtain h2 t r2 where rest: "run_chunks (via_child_chunk L exec our none) cs h1 [] = (h2, t, r2)"
      by (metis prod_cases3)
    with b None Cons.prems have tr: "tr = evs @ t" by (simp add: run_chunks_Cons del: run_chunks.simps)
    from via_child_chunk_shape[OF b] None obtain x d where
      evs: "evs = Execute x # map (\<lambda>(a, v). Populate a v) (child_writes (uselist L) our none d c)
              @ map Yield (map snd d)" by auto
    from Cons.IH[OF rest, of "[]"] show ?thesis
      unfolding tr evs using batch_done_child_chunk[of our c none _ pending x "uselist L" d t]
      by simp
  qed
qed

lemma load_via_child_batches:
  assumes "0 < CHUNKSIZE L" and "sorted_keys (map fst our) = Inr ks"
    and "load_via_child L exec our none h = Some (h', tr, r)"
  shows "batch_done (child_batches (CHUNKSIZE L) our none ks) [] tr"
  using assms batch_done_run_child[of L exec our none "chunked (CHUNKSIZE L) ks" h h' tr r "[]"]
  by (simp add: load_via_child_def drain_chunked child_batches_def)

text \<open>
  C3, as stated, fails in \<^verbatim>\<open>_load_via_parent\<close>: there \<^verbatim>\<open>yield from collection\<close> stands
  inside the loop over the parents of the chunk. With the parents \<^verbatim>\<open>{id: 10}\<close> and
  \<^verbatim>\<open>{id: 20}\<close> in one batch, the rows of parent 10 are yielded before parent 20 is
  written.
\<close>

theorem parent_by_parent_counterexample:
  "\<not> yields_after_batch (one_to_many True 500)
       (prepare_query (one_to_many True 500)
          [owned_row 100 10, owned_row 101 10, owned_row 200 20])
       (store [owner 10, owner 20]) [0, 1]"
  by code_simp

section \<open>sorted\<close>

lemma val_less_trans:
  "val_less a b = Some True \<Longrightarrow> val_less b c = Some True \<Longrightarrow> val_less a c = Some True"
  by (cases a; cases b; cases c) auto

lemma val_less_total:
  "a \<noteq> b \<Longrightarrow> val_less a b = Some t \<Longrightarrow> t \<or> val_less b a = Some True"
  by (cases a; cases b) auto

lemma val_less_irrefl: "val_less a a \<noteq> Some True"
  by (cases a) auto

lemma tuple_less_trans:
  "tuple_less a b = Some True \<Longrightarrow> tuple_less b c = Some True \<Longrightarrow> tuple_less a c = Some True"
proof (induction a b arbitrary: c rule: tuple_less.induct)
  case 1
  then show ?case by simp
next
  case (2 y ys)
  then show ?case by (cases c) auto
next
  case (3 x xs)
  then show ?case by simp
next
  case (4 x xs y ys)
  show ?case
  proof (cases c)
    case Nil
    with 4 show ?thesis by simp
  next
    case (Cons z zs)
    with 4 show ?thesis
      by (auto split: if_splits dest: val_less_trans simp: val_less_irrefl)
  qed
qed

lemma tuple_less_total:
  "a \<noteq> b \<Longrightarrow> tuple_less a b \<noteq> None \<Longrightarrow> tuple_less a b = Some True \<or> tuple_less b a = Some True"
proof (induction a b rule: tuple_less.induct)
  case (4 x xs y ys)
  show ?case
  proof (cases "x = y")
    case True
    with 4 show ?thesis by auto
  next
    case False
    with 4(3) obtain t where "val_less x y = Some t" by auto
    with False val_less_total[of x y t] show ?thesis by auto
  qed
qed auto

lemma set_insert_key [simp]: "set (insert_key k xs) = insert k (set xs)"
  by (induction xs) auto

lemma sorted_insert_key:
  assumes "sorted_wrt key_lt xs" and "k \<notin> set xs"
    and "\<forall>x \<in> set xs. tuple_less k x \<noteq> None"
  shows "sorted_wrt key_lt (insert_key k xs)"
  using assms
proof (induction xs)
  case Nil
  then show ?case by simp
next
  case (Cons x xs)
  show ?case
  proof (cases "tuple_less k x = Some True")
    case True
    with Cons.prems show ?thesis
      by (auto simp: key_lt_def dest: tuple_less_trans)
  next
    case False
    with Cons.prems tuple_less_total[of k x] have "tuple_less x k = Some True" by auto
    with False Cons show ?thesis by (auto simp: key_lt_def)
  qed
qed

lemma set_foldr_insert_key [simp]: "set (foldr insert_key ks []) = set ks"
  by (induction ks) auto

lemma sorted_keys_sorted:
  assumes "sorted_keys ks = Inr ks'" and "distinct ks"
  shows "sorted_wrt key_lt ks' \<and> set ks' = set ks"
proof -
  from assms(1) have cmp: "\<forall>a \<in> set ks. \<forall>b \<in> set ks. tuple_less a b \<noteq> None"
    and eq: "ks' = foldr insert_key ks []"
    by (auto simp: sorted_keys_def split: if_splits)
  have "set js \<subseteq> set ks \<Longrightarrow> distinct js \<Longrightarrow> sorted_wrt key_lt (foldr insert_key js [])" for js
  proof (induction js)
    case Nil
    then show ?case by simp
  next
    case (Cons j js)
    with cmp show ?case by (auto intro!: sorted_insert_key)
  qed
  with assms(2) eq show ?thesis by simp
qed

section \<open>Slices\<close>

lemma chunked_slice:
  "c \<in> set (chunked n xs) \<Longrightarrow> \<exists>i. c = take n (drop i xs)"
proof (induction "length xs" arbitrary: xs rule: less_induct)
  case less
  show ?case
  proof (cases xs)
    case Nil
    with less.prems show ?thesis by simp
  next
    case (Cons x xs')
    show ?thesis
    proof (cases "n = 0")
      case True
      with less.prems show ?thesis by (subst (asm) chunked.simps) simp
    next
      case False
      with less.prems Cons have "c = take n xs \<or> c \<in> set (chunked n (drop n xs))"
        by (simp add: chunked_Cons)
      then show ?thesis
      proof
        assume "c = take n xs"
        then have "c = take n (drop 0 xs)" by simp
        then show ?thesis by blast
      next
        assume c: "c \<in> set (chunked n (drop n xs))"
        have "length (drop n xs) < length xs" using False Cons by simp
        from less.hyps[OF this c] obtain i where "c = take n (drop i (drop n xs))" by blast
        then have "c = take n (drop (i + n) xs)" by (simp add: add.commute)
        then show ?thesis by blast
      qed
    qed
  qed
qed

lemma chunked_sorted:
  "c \<in> set (chunked n xs) \<Longrightarrow> sorted_wrt R xs \<Longrightarrow> sorted_wrt R c"
  by (auto dest!: chunked_slice intro: sorted_wrt_take sorted_wrt_drop)

lemma chunked_subset:
  "c \<in> set (chunked n xs) \<Longrightarrow> set c \<subseteq> set xs"
  by (auto dest!: chunked_slice dest: in_set_takeD in_set_dropD)

lemma concat_chunked: "0 < n \<Longrightarrow> concat (chunked n xs) = xs"
proof (induction "length xs" arbitrary: xs rule: less_induct)
  case less
  show ?case
  proof (cases xs)
    case Nil
    then show ?thesis by simp
  next
    case (Cons x xs')
    have "length (drop n xs) < length xs" using less.prems Cons by simp
    from less.hyps[OF this less.prems] Cons less.prems show ?thesis
      by (simp add: chunked_Cons)
  qed
qed

lemma ceil_div_step:
  assumes "0 < n" and "0 < m"
  shows "ceil_div m n = Suc (ceil_div (m - n) n)"
proof (cases "m \<le> n")
  case True
  from assms True have "(m + n - 1) div n = 1"
    by (intro div_nat_eqI) simp_all
  moreover from assms True have "(m - n + n - 1) div n = 0" by simp
  ultimately show ?thesis by (simp add: ceil_div_def)
next
  case False
  then have "m + n - 1 = (m - n + n - 1) + n" by simp
  then have "(m + n - 1) div n = Suc ((m - n + n - 1) div n)"
    using assms(1) by (simp only: div_add_self2)
  then show ?thesis by (simp add: ceil_div_def)
qed

lemma length_chunked: "0 < n \<Longrightarrow> length (chunked n xs) = ceil_div (length xs) n"
proof (induction "length xs" arbitrary: xs rule: less_induct)
  case less
  show ?case
  proof (cases xs)
    case Nil
    with less.prems show ?thesis by (simp add: ceil_div_def)
  next
    case (Cons x xs')
    have "length (drop n xs) < length xs" using less.prems Cons by simp
    from less.hyps[OF this less.prems]
    have ih: "length (chunked n (drop n xs)) = ceil_div (length xs - n) n" by simp
    from Cons have "0 < length xs" by simp
    from ceil_div_step[OF less.prems this] ih Cons less.prems show ?thesis
      by (simp add: chunked_Cons)
  qed
qed

section \<open>What prepare_states builds\<close>

lemma traverse_length: "traverse f xs = Inr ys \<Longrightarrow> length ys = length xs"
  by (induction xs arbitrary: ys) (auto split: sum.splits)

lemma group_of_dict_append:
  "group_of (dict_append k a our) k' = (if k' = k then group_of our k @ [a] else group_of our k')"
  by (auto simp: group_of_def dict_append_def update_conv' split: option.splits)

lemma keys_dict_append: "fst ` set (dict_append k a our) = insert k (fst ` set our)"
  by (simp add: dict_append_def dom_update)

lemma distinct_dict_append:
  "distinct (map fst our) \<Longrightarrow> distinct (map fst (dict_append k a our))"
  by (simp add: dict_append_def distinct_update)

lemma collect_states_groups:
  "collect_states qi h as our none = Inr (our', none') \<Longrightarrow>
   group_of our' k = group_of our k
     @ filter (\<lambda>a. traverse (getitem (h a)) (child_lookup_cols qi) = Inr k \<and> VNone \<notin> set k) as"
proof (induction as arbitrary: our none)
  case Nil
  then show ?case by simp
next
  case (Cons a as)
  then show ?case
    by (auto split: sum.splits if_splits simp: group_of_dict_append)
qed

lemma collect_states_none:
  "collect_states qi h as our none = Inr (our', none') \<Longrightarrow>
   none' = none
     @ filter (\<lambda>a. \<exists>k. traverse (getitem (h a)) (child_lookup_cols qi) = Inr k \<and> VNone \<in> set k) as"
proof (induction as arbitrary: our none)
  case Nil
  then show ?case by simp
next
  case (Cons a as)
  show ?case
  proof (cases "traverse (getitem (h a)) (child_lookup_cols qi)")
    case (Inl e)
    with Cons.prems show ?thesis by simp
  next
    case (Inr k)
    show ?thesis
    proof (cases "VNone \<in> set k")
      case True
      with Inr Cons.prems have "collect_states qi h as our (none @ [a]) = Inr (our', none')" by simp
      from Cons.IH[OF this] Inr True show ?thesis by simp
    next
      case False
      with Inr Cons.prems have "collect_states qi h as (dict_append k a our) none = Inr (our', none')"
        by (simp split: if_splits)
      from Cons.IH[OF this] Inr False show ?thesis by simp
    qed
  qed
qed

lemma collect_states_distinct:
  "collect_states qi h as our none = Inr (our', none') \<Longrightarrow> distinct (map fst our)
   \<Longrightarrow> distinct (map fst our')"
proof (induction as arbitrary: our none)
  case Nil
  then show ?case by simp
next
  case (Cons a as)
  then show ?case
    by (auto split: sum.splits if_splits simp: distinct_dict_append)
qed

lemma collect_states_keys:
  "collect_states qi h as our none = Inr (our', none') \<Longrightarrow>
   fst ` set our' = fst ` set our
     \<union> {k. \<exists>a \<in> set as. traverse (getitem (h a)) (child_lookup_cols qi) = Inr k \<and> VNone \<notin> set k}"
proof (induction as arbitrary: our none)
  case Nil
  then show ?case by simp
next
  case (Cons a as)
  show ?case
  proof (cases "traverse (getitem (h a)) (child_lookup_cols qi)")
    case (Inl e)
    with Cons.prems show ?thesis by simp
  next
    case (Inr k)
    show ?thesis
    proof (cases "VNone \<in> set k")
      case True
      with Inr Cons.prems have "collect_states qi h as our (none @ [a]) = Inr (our', none')" by simp
      from Cons.IH[OF this] Inr True show ?thesis by auto
    next
      case False
      with Inr Cons.prems have "collect_states qi h as (dict_append k a our) none = Inr (our', none')"
        by (simp split: if_splits)
      from Cons.IH[OF this] Inr False show ?thesis by (auto simp: keys_dict_append)
    qed
  qed
qed

lemma prepare_states_child:
  assumes "prepare_states L h states = Inr p" and "load_only_child (query_info L)"
  shows "collect_states (query_info L) h states [] [] = Inr (our_states_dict p, none_states p)"
  using assms by (auto simp: prepare_states_def split: if_splits sum.splits)

lemma prepare_states_parent:
  assumes "prepare_states L h states = Inr p" and "\<not> load_only_child (query_info L)"
  shows "traverse (pair_state (source_mapper L) h) states = Inr (our_states_list p)"
  using assms by (auto simp: prepare_states_def split: if_splits sum.splits)

lemma prepare_states_key_length:
  assumes "prepare_states L h states = Inr p" and "load_only_child (query_info L)"
    and "k \<in> fst ` set (our_states_dict p)"
  shows "length k = length (child_lookup_cols (query_info L))"
  using collect_states_keys[OF prepare_states_child[OF assms(1,2)]] assms(3)
  by (auto dest: traverse_length)

lemma prepare_states_distinct:
  assumes "prepare_states L h states = Inr p" and "load_only_child (query_info L)"
  shows "distinct (map fst (our_states_dict p))"
  using collect_states_distinct[OF prepare_states_child[OF assms]] by simp

section \<open>The executed queries\<close>

lemma executed_append [simp]: "executed (xs @ ys) = executed xs @ executed ys"
  by (induction xs rule: executed.induct) auto

lemma executed_Populates [simp]: "executed (map (\<lambda>(a, v). Populate a v) ws) = []"
  by (induction ws) auto

lemma executed_Yields [simp]: "executed (map Yield rs) = []"
  by (induction rs) auto

lemma executed_Yields_comp [simp]: "executed (map (Yield \<circ> g) rs) = []"
  by (induction rs) auto

lemma via_child_chunk_executed:
  assumes "via_child_chunk L exec our none c h = (h', evs, r)"
  shows "(r \<noteq> None \<and> executed evs = [])
       \<or> (\<exists>bs. traverse (bind_key (zero_idx (query_info L))) c = Inr bs \<and> executed evs = [bs])"
  using assms by (auto simp: via_child_chunk_def Let_def split: sum.splits)

lemma populate_parent_executed:
  "populate_parent L d p h = (h', evs, r) \<Longrightarrow> executed evs = []"
  by (cases p) (auto simp: populate_parent_def split: if_splits option.splits list.splits)

lemma populate_parents_executed:
  "populate_parents L d ps h = (h', evs, r) \<Longrightarrow> executed evs = []"
proof (induction ps arbitrary: h h' evs r)
  case Nil
  then show ?case by simp
next
  case (Cons p ps)
  obtain h1 e1 r1 where p1: "populate_parent L d p h = (h1, e1, r1)" by (metis prod_cases3)
  show ?case
  proof (cases r1)
    case None
    obtain h2 e2 r2 where p2: "populate_parents L d ps h1 = (h2, e2, r2)" by (metis prod_cases3)
    with Cons.prems p1 None have "evs = e1 @ e2" by simp
    with populate_parent_executed[OF p1] Cons.IH[OF p2] show ?thesis by simp
  next
    case (Some e)
    with Cons.prems p1 populate_parent_executed[OF p1] show ?thesis by auto
  qed
qed

lemma via_parent_chunk_executed:
  assumes "via_parent_chunk L exec c h = (h', evs, r)"
  shows "(r \<noteq> None \<and> executed evs = [])
       \<or> (\<exists>bs. traverse (bind_key (zero_idx (query_info L))) (map fst c) = Inr bs
               \<and> executed evs = [bs])"
  using assms
  by (auto simp: via_parent_chunk_def split: sum.splits prod.splits
           dest: populate_parents_executed)

text \<open>The executed bound lists of a run over chunks: each is the binding of one of the
  chunks; a run that ends normally has bound every chunk, in order.\<close>

lemma run_chunks_executed:
  assumes "run_chunks body cs h [] = (h', tr, r)"
    and "\<And>c h h' evs r. body c h = (h', evs, r) \<Longrightarrow>
           (r \<noteq> None \<and> executed evs = []) \<or> (\<exists>bs. bind c = Inr bs \<and> executed evs = [bs])"
  shows "(\<forall>bs \<in> set (executed tr). \<exists>c \<in> set cs. bind c = Inr bs)
       \<and> (r = None \<longrightarrow> traverse bind cs = Inr (executed tr))"
  using assms(1)
proof (induction cs arbitrary: h h' tr r)
  case Nil
  then show ?case by simp
next
  case (Cons c cs)
  obtain h1 evs r1 where b: "body c h = (h1, evs, r1)" by (metis prod_cases3)
  note sh = assms(2)[OF b]
  show ?case
  proof (cases r1)
    case (Some e)
    with b Cons.prems have "tr = evs" "r = Some e"
      by (simp_all add: run_chunks_Cons del: run_chunks.simps)
    with sh Some show ?thesis by auto
  next
    case None
    obtain h2 t r2 where rest: "run_chunks body cs h1 [] = (h2, t, r2)" by (metis prod_cases3)
    with b None Cons.prems have tr: "tr = evs @ t" "r = r2"
      by (simp_all add: run_chunks_Cons del: run_chunks.simps)
    from sh None obtain bs where bs: "bind c = Inr bs" "executed evs = [bs]" by auto
    from Cons.IH[OF rest] tr bs show ?thesis by auto
  qed
qed

lemma bind_keys_sorted:
  assumes "traverse (bind_key zi) chunk = Inr bs" and "sorted_wrt key_lt chunk"
    and "zi \<longrightarrow> (\<forall>k \<in> set chunk. length k = 1)"
  shows "sorted_wrt bound_lt bs"
proof -
  define g where "g k = (if zi then Scalar (hd k) else Tuple k)" for k :: "val list"
  have "map (bind_key zi) chunk = map Inr bs" by (rule traverse_Inr_map[OF assms(1)])
  moreover have "map (bind_key zi) chunk = map (Inr \<circ> g) chunk"
    using assms(3) by (auto simp: bind_key_def g_def split: list.splits)
  ultimately have "map (Inr :: bound \<Rightarrow> error + bound) bs = map Inr (map g chunk)"
    by (simp only: map_map)
  then have bs: "bs = map g chunk" by (simp only: inj_map_eq_map[OF inj_Inr])
  have "bound_lt (g a) (g b)" if "a \<in> set chunk" "b \<in> set chunk" "key_lt a b" for a b
  proof (cases zi)
    case True
    with assms(3) that obtain x y where "a = [x]" "b = [y]"
      by (metis length_Suc_conv length_0_conv One_nat_def)
    with that(3) True show ?thesis by (auto simp: g_def key_lt_def split: if_splits)
  next
    case False
    with that(3) show ?thesis by (simp add: g_def)
  qed
  with assms(2) show ?thesis
    unfolding bs sorted_wrt_map by (auto intro: sorted_wrt_mono_rel[rotated])
qed

section \<open>Sorted keys\<close>

lemma fetch_total:
  assumes "0 < CHUNKSIZE L"
  shows "\<exists>h' tr r. fetch_results_and_populate_states L exec p h = Some (h', tr, r)"
  using load_via_child_total[OF assms] load_via_parent_total[OF assms]
  by (simp add: fetch_results_and_populate_states_def)

lemma load_via_child_sorted:
  assumes "0 < CHUNKSIZE L" and "distinct (map fst our)"
    and "zero_idx (query_info L) \<longrightarrow> (\<forall>k \<in> fst ` set our. length k = 1)"
    and "load_via_child L exec our none h = Some (h', tr, r)"
  shows "batches_sorted tr"
proof (cases "sorted_keys (map fst our)")
  case (Inl e)
  with assms(4) show ?thesis by (simp add: load_via_child_def batches_sorted_def)
next
  case (Inr ks)
  from sorted_keys_sorted[OF Inr assms(2)]
  have srt: "sorted_wrt key_lt ks" and ks: "set ks = fst ` set our" by simp_all
  from assms(1,4) Inr
  have run: "run_chunks (via_child_chunk L exec our none) (chunked (CHUNKSIZE L) ks) h [] = (h', tr, r)"
    by (simp add: load_via_child_def drain_chunked)
  have "sorted_wrt bound_lt bs" if "bs \<in> set (executed tr)" for bs
  proof -
    from run_chunks_executed[OF run, of "traverse (bind_key (zero_idx (query_info L)))"]
      via_child_chunk_executed that
    obtain c where c: "c \<in> set (chunked (CHUNKSIZE L) ks)"
      "traverse (bind_key (zero_idx (query_info L))) c = Inr bs" by blast
    from chunked_sorted[OF c(1) srt] chunked_subset[OF c(1)] ks assms(3)
    show ?thesis by (intro bind_keys_sorted[OF c(2)]) auto
  qed
  then show ?thesis by (simp add: batches_sorted_def list_all_iff)
qed

text \<open>
  C8, as stated, fails: the path that groups the returned rows by foreign-key tuple is
  \<^verbatim>\<open>_load_via_parent\<close>, and it binds the keys of the chunk as they come. For the parents
  \<^verbatim>\<open>[{id: 20}, {id: 10}]\<close> the one query is executed with the bound keys \<^verbatim>\<open>[20, 10]\<close>.
\<close>

theorem unsorted_via_parent_counterexample:
  "\<not> batches_sorted (trace_of (load (one_to_many True 500)
         (prepare_query (one_to_many True 500) [owned_row 100 10, owned_row 200 20])
         (store [owner 20, owner 10]) [0, 1]))"
  by code_simp

section \<open>The last assignment to a parent\<close>

lemma last_write_Nil [simp]: "last_write [] a = None"
  by (simp add: last_write_def)

lemma last_write_append:
  "last_write (xs @ ys) a = (case last_write ys a of None \<Rightarrow> last_write xs a | Some v \<Rightarrow> Some v)"
  by (simp add: last_write_def map_add_def split: option.splits)

lemma last_write_const:
  "last_write (map (\<lambda>x. (x, v)) xs) a = (if a \<in> set xs then Some v else None)"
  by (induction xs rule: rev_induct) (auto simp: last_write_def)

lemma last_write_None_iff: "last_write ws a = None \<longleftrightarrow> a \<notin> fst ` set ws"
  by (simp add: last_write_def map_of_eq_None_iff)

text \<open>The record at an address after a run of assignments: the field holds the value
  last assigned to that address.\<close>

lemma assign_all_snoc: "assign_all f (ws @ [(a, v)]) h = setitem f a v (assign_all f ws h)"
  by (simp add: assign_all_append)

lemma assign_all_at:
  "assign_all f ws h a = (case last_write ws a of None \<Rightarrow> h a | Some v \<Rightarrow> (h a)(f \<mapsto> v))"
proof (induction ws rule: rev_induct)
  case Nil
  then show ?case by simp
next
  case (snoc w ws)
  obtain b v where w: "w = (b, v)" by (cases w)
  have lw: "last_write (ws @ [w]) a = (if a = b then Some v else last_write ws a)"
    by (simp add: w last_write_def)
  have "assign_all f (ws @ [w]) h a
        = (if a = b then (assign_all f ws h a)(f \<mapsto> v) else assign_all f ws h a)"
    by (simp add: w assign_all_snoc setitem_def)
  with snoc.IH lw show ?case
    by (cases "last_write ws a"; cases "a = b") (auto simp: fun_eq_iff)
qed

lemma distinct_count_list_1: "distinct xs \<Longrightarrow> x \<in> set xs \<Longrightarrow> count_list xs x = 1"
  by (induction xs) auto

lemma sorted_wrt_key_lt_distinct: "sorted_wrt key_lt ks \<Longrightarrow> distinct ks"
proof (induction ks)
  case Nil
  then show ?case by simp
next
  case (Cons k ks)
  have "\<not> key_lt k k"
    by (induction k) (auto simp: key_lt_def)
  with Cons show ?case by auto
qed

lemma traverse_concat:
  "traverse (traverse f) css = Inr bss \<Longrightarrow> traverse f (concat css) = Inr (concat bss)"
proof (induction css arbitrary: bss)
  case Nil
  then show ?case by simp
next
  case (Cons cs css)
  have app: "traverse f xs = Inr ys \<Longrightarrow> traverse f zs = Inr ws
             \<Longrightarrow> traverse f (xs @ zs) = Inr (ys @ ws)" for xs ys zs ws
    by (induction xs arbitrary: ys) (auto split: sum.splits)
  from Cons show ?case by (auto split: sum.splits intro: app)
qed

lemma traverse_map: "traverse f (map g xs) = traverse (\<lambda>x. f (g x)) xs"
  by (induction xs) (auto split: sum.splits)

text \<open>The assignments of a chunk of \<^verbatim>\<open>_load_via_child\<close>, seen from one parent.\<close>

lemma last_write_groups:
  "last_write (concat (map (\<lambda>k. map (\<lambda>a. (a, V k)) (group_of our k)) c)) a
   = (case filter (\<lambda>k. a \<in> set (group_of our k)) c of [] \<Rightarrow> None | ks \<Rightarrow> Some (V (last ks)))"
proof (induction c rule: rev_induct)
  case Nil
  then show ?case by simp
next
  case (snoc k c)
  then show ?case
    by (auto simp: last_write_append last_write_const split: list.splits)
qed

lemma last_write_child_writes:
  "last_write (child_writes ul our none d c) a =
     (if a \<in> set none then Some VNone
      else case filter (\<lambda>k. a \<in> set (group_of our k)) c of
             [] \<Rightarrow> None
           | ks \<Rightarrow> Some (child_value ul d (last ks)))"
  by (simp add: child_writes_def last_write_append last_write_const last_write_groups)

lemma via_child_chunk_writes:
  assumes "via_child_chunk L exec our none c h = (h', evs, r)"
  shows "(r \<noteq> None \<and> writes evs = [])
       \<or> (r = None \<and> (\<exists>d. writes evs = child_writes (uselist L) our none d c))"
  using assms by (auto simp: via_child_chunk_def Let_def split: sum.splits)

text \<open>Two parents that belong to the same groups and are not in \<^verbatim>\<open>none_states\<close> get
  the same last assignment.\<close>

lemma via_child_chunk_same:
  assumes "via_child_chunk L exec our none c h = (h', evs, r)"
    and "\<forall>k. a \<in> set (group_of our k) \<longleftrightarrow> b \<in> set (group_of our k)"
    and "a \<notin> set none" "b \<notin> set none"
  shows "last_write (writes evs) a = last_write (writes evs) b"
  using via_child_chunk_writes[OF assms(1)] assms(2-)
  by (auto simp: last_write_child_writes)

lemma run_chunks_same:
  assumes "run_chunks body cs h [] = (h', tr, r)"
    and "\<And>c h h' evs r. body c h = (h', evs, r)
           \<Longrightarrow> last_write (writes evs) a = last_write (writes evs) b"
  shows "last_write (writes tr) a = last_write (writes tr) b"
  using assms(1)
proof (induction cs arbitrary: h h' tr r)
  case Nil
  then show ?case by simp
next
  case (Cons c cs)
  obtain h1 evs r1 where b: "body c h = (h1, evs, r1)" by (metis prod_cases3)
  note same = assms(2)[OF b]
  show ?case
  proof (cases r1)
    case (Some e)
    with b Cons.prems have "tr = evs" by (simp add: run_chunks_Cons del: run_chunks.simps)
    with same show ?thesis by simp
  next
    case None
    obtain h2 t r2 where rest: "run_chunks body cs h1 [] = (h2, t, r2)" by (metis prod_cases3)
    with b None Cons.prems have tr: "tr = evs @ t"
      by (simp add: run_chunks_Cons del: run_chunks.simps)
    from Cons.IH[OF rest] same show ?thesis
      by (simp add: tr last_write_append split: option.splits)
  qed
qed

text \<open>In a run that ends normally every chunk has been processed.\<close>

lemma run_chunks_written:
  assumes "run_chunks body cs h [] = (h', tr, None)"
    and "c \<in> set cs"
    and "\<And>h h' evs. body c h = (h', evs, None) \<Longrightarrow> last_write (writes evs) a \<noteq> None"
  shows "last_write (writes tr) a \<noteq> None"
  using assms(1,2)
proof (induction cs arbitrary: h h' tr)
  case Nil
  then show ?case by simp
next
  case (Cons c' cs)
  obtain h1 evs r1 where b: "body c' h = (h1, evs, r1)" by (metis prod_cases3)
  obtain h2 t r2 where rest: "run_chunks body cs h1 [] = (h2, t, r2)" by (metis prod_cases3)
  from b rest Cons.prems(1) have r1: "r1 = None" and tr: "tr = evs @ t" and r2: "r2 = None"
    by (auto simp add: run_chunks_Cons simp del: run_chunks.simps split: option.splits)
  show ?case
  proof (cases "c \<in> set cs")
    case True
    from Cons.IH[OF rest[unfolded r2] True] show ?thesis
      by (auto simp: tr last_write_append split: option.splits)
  next
    case False
    with Cons.prems(2) have "c' = c" by simp
    with assms(3) b r1 have "last_write (writes evs) a \<noteq> None" by blast
    then show ?thesis by (auto simp: tr last_write_append split: option.splits)
  qed
qed

lemma in_chunked:
  assumes "0 < n" and "x \<in> set xs"
  shows "\<exists>c \<in> set (chunked n xs). x \<in> set c"
  using assms(2) concat_chunked[OF assms(1), of xs]
  by (metis UN_E set_concat)

section \<open>Parents that share a foreign key\<close>

lemma bind_key_inj:
  assumes "zi \<longrightarrow> (\<forall>k \<in> K. length k = 1)"
  shows "inj_on (bind_key zi) K"
proof (rule inj_onI)
  fix a b assume ab: "a \<in> K" "b \<in> K" "bind_key zi a = bind_key zi b"
  show "a = b"
  proof (cases zi)
    case True
    with assms ab(1,2) obtain x y where "a = [x]" "b = [y]"
      by (metis length_Suc_conv length_0_conv One_nat_def)
    with ab(3) True show ?thesis by (simp add: bind_key_def)
  next
    case False
    with ab(3) show ?thesis by (simp add: bind_key_def)
  qed
qed

lemma shared_key_general:
  assumes pos: "0 < CHUNKSIZE L" and child: "load_only_child (query_info L)"
    and zi: "zero_idx (query_info L) \<longrightarrow> length (child_lookup_cols (query_info L)) = 1"
    and prep: "prepare_states L h states = Inr p"
    and run: "fetch_results_and_populate_states L exec p h = Some (h', tr, None)"
    and a: "a \<in> set states" and b: "b \<in> set states"
    and ka: "traverse (getitem (h a)) (child_lookup_cols (query_info L)) = Inr k"
    and kb: "traverse (getitem (h b)) (child_lookup_cols (query_info L)) = Inr k"
    and nn: "VNone \<notin> set k"
  shows "a \<in> set (group_of (our_states_dict p) k) \<and> b \<in> set (group_of (our_states_dict p) k)"
    and "\<exists>bk. bind_key (zero_idx (query_info L)) k = Inr bk
              \<and> count_list (concat (executed tr)) bk = 1"
    and "h' a (key L) \<noteq> None \<and> h' a (key L) = h' b (key L)"
proof -
  let ?our = "our_states_dict p" and ?none = "none_states p"
  let ?zi = "zero_idx (query_info L)"
  let ?body = "via_child_chunk L exec ?our ?none"
  note cs = prepare_states_child[OF prep child]
  have G: "group_of ?our k' = filter (\<lambda>x. traverse (getitem (h x)) (child_lookup_cols (query_info L)) = Inr k'
             \<and> VNone \<notin> set k') states" for k'
    using collect_states_groups[OF cs, of k'] by (simp add: group_of_def)
  have N: "?none = filter (\<lambda>x. \<exists>k'. traverse (getitem (h x)) (child_lookup_cols (query_info L)) = Inr k'
             \<and> VNone \<in> set k') states"
    using collect_states_none[OF cs] by simp
  from G a b ka kb nn show grp: "a \<in> set (group_of ?our k) \<and> b \<in> set (group_of ?our k)" by simp
  have same_groups: "\<forall>k'. a \<in> set (group_of ?our k') \<longleftrightarrow> b \<in> set (group_of ?our k')"
    using G a b ka kb by auto
  have notnone: "a \<notin> set ?none" "b \<notin> set ?none"
    using N ka kb nn by auto
  have kin: "k \<in> fst ` set ?our"
    using collect_states_keys[OF cs] a ka nn by auto
  from run child obtain ks where sk: "sorted_keys (map fst ?our) = Inr ks"
    and lvc: "load_via_child L exec ?our ?none h = Some (h', tr, None)"
    by (cases "sorted_keys (map fst ?our)")
       (auto simp: fetch_results_and_populate_states_def load_via_child_def)
  from sorted_keys_sorted[OF sk prepare_states_distinct[OF prep child]]
  have srt: "sorted_wrt key_lt ks" and ks: "set ks = fst ` set ?our" by simp_all
  from lvc sk pos
  have rc: "run_chunks ?body (chunked (CHUNKSIZE L) ks) h [] = (h', tr, None)"
    by (simp add: load_via_child_def drain_chunked)
  from kin ks in_chunked[OF pos, of k ks] obtain c
    where c: "c \<in> set (chunked (CHUNKSIZE L) ks)" "k \<in> set c" by auto
  have w: "last_write (writes evs) a \<noteq> None" if "?body c h0 = (h1, evs, None)" for h0 h1 evs
  proof -
    from via_child_chunk_writes[OF that] obtain d
      where "writes evs = child_writes (uselist L) ?our ?none d c" by auto
    moreover have "filter (\<lambda>k'. a \<in> set (group_of ?our k')) c \<noteq> []"
      using c(2) grp by (auto simp: filter_empty_conv)
    ultimately show ?thesis
      by (auto simp: last_write_child_writes split: list.splits)
  qed
  have "last_write (writes tr) a \<noteq> None"
    by (rule run_chunks_written[OF rc c(1)]) (rule w)
  then obtain v where va: "last_write (writes tr) a = Some v" by auto
  have "last_write (writes tr) a = last_write (writes tr) b"
    by (rule run_chunks_same[OF rc]) (rule via_child_chunk_same[OF _ same_groups notnone])
  with va have vb: "last_write (writes tr) b = Some v" by simp
  from load_via_child_replay[OF lvc] va vb
  show "h' a (key L) \<noteq> None \<and> h' a (key L) = h' b (key L)"
    by (simp add: assign_all_at)
  have len1: "?zi \<longrightarrow> (\<forall>k' \<in> set ks. length k' = 1)"
    using prepare_states_key_length[OF prep child] zi ks by auto
  from run_chunks_executed[OF rc, of "traverse (bind_key ?zi)"] via_child_chunk_executed
  have "traverse (traverse (bind_key ?zi)) (chunked (CHUNKSIZE L) ks) = Inr (executed tr)"
    by blast
  from traverse_concat[OF this] concat_chunked[OF pos, of ks]
  have tk: "traverse (bind_key ?zi) ks = Inr (concat (executed tr))" by simp
  from traverse_Inr_all[OF tk] kin ks obtain bk where bk: "bind_key ?zi k = Inr bk" by auto
  have "count_list (concat (executed tr)) bk
        = count_list (map Inr (concat (executed tr))) (Inr bk :: error + bound)"
    by (simp add: count_list_map_conv)
  also have "\<dots> = count_list (map (bind_key ?zi) ks) (bind_key ?zi k)"
    using traverse_Inr_map[OF tk] bk by simp
  also have "\<dots> = count_list ks k"
    using kin ks by (intro count_list_inj_map bind_key_inj[OF len1]) auto
  also have "\<dots> = 1"
    using sorted_wrt_key_lt_distinct[OF srt] kin ks by (intro distinct_count_list_1) auto
  finally show "\<exists>bk. bind_key ?zi k = Inr bk \<and> count_list (concat (executed tr)) bk = 1"
    using bk by blast
qed

lemma scenario_A:
  "observe (load (many_to_one False 500)
              (prepare_query (many_to_one False 500) [target_row 5 ''X''])
              (store [child_of 1 (VInt 5), child_of 2 VNone, child_of 3 (VInt 5)]) [0, 1, 2])
     ''parent'' [0, 1, 2]
   = Some ([Some (VDict (target_row 5 ''X'')), Some VNone, Some (VDict (target_row 5 ''X''))],
           [Execute [Scalar (VInt 5)],
            Populate 0 (VDict (target_row 5 ''X'')), Populate 2 (VDict (target_row 5 ''X'')),
            Populate 1 VNone,
            Yield (target_row 5 ''X'')],
           None)"
  by code_simp

section \<open>Independence of the chunk size\<close>

text \<open>What the dict built from the fetched rows holds under a key.\<close>

lemma child_data_lookup:
  "child_data m rows d0 = Inr d \<Longrightarrow>
   map_of d k = (case filter (\<lambda>r. get_primary_key_tuple m (map_of r) = Inr k) rows of
                   [] \<Rightarrow> map_of d0 k
                 | rs \<Rightarrow> Some (last rs))"
proof (induction rows arbitrary: d0)
  case Nil
  then show ?case by simp
next
  case (Cons r rows)
  from Cons.prems obtain k' where k': "get_primary_key_tuple m (map_of r) = Inr k'"
    and rest: "child_data m rows (AList.update k' r d0) = Inr d"
    by (auto split: sum.splits if_splits)
  from Cons.IH[OF rest] k' show ?case
    by (auto simp: update_conv' split: list.splits)
qed

lemma map_of_dict_append:
  "map_of (dict_append k r d) k' =
     (if k' = k then Some ((case map_of d k of None \<Rightarrow> [] | Some g \<Rightarrow> g) @ [r]) else map_of d k')"
  by (simp add: dict_append_def update_conv')

lemma parent_data_lookup:
  "parent_data qi rows d0 = Inr d \<Longrightarrow>
   map_of d k = (case filter (\<lambda>r. get_foreign_key_tuple (map_of r) qi = Inr k) rows of
                   [] \<Rightarrow> map_of d0 k
                 | rs \<Rightarrow> Some ((case map_of d0 k of None \<Rightarrow> [] | Some g \<Rightarrow> g) @ rs))"
proof (induction rows arbitrary: d0)
  case Nil
  then show ?case by simp
next
  case (Cons r rows)
  from Cons.prems obtain k' where k': "get_foreign_key_tuple (map_of r) qi = Inr k'"
    and rest: "parent_data qi rows (dict_append k' r d0) = Inr d"
    by (auto split: sum.splits if_splits)
  from Cons.IH[OF rest] k' show ?case
    by (auto simp: map_of_dict_append split: list.splits option.splits)
qed

text \<open>The rows of the prepared query that carry a key bound in the batch are all the rows
  of the base query with that key.\<close>

lemma prepare_query_rows:
  assumes "prepare_query L q bs = Inr rows"
    and "bind_key (zero_idx (query_info L)) k = Inr b" and "b \<in> set bs"
  shows "filter (\<lambda>r. traverse (getitem (map_of r)) (pk_cols (query_info L)) = Inr k) rows
       = filter (\<lambda>r. traverse (getitem (map_of r)) (pk_cols (query_info L)) = Inr k) q"
proof -
  from assms(1) have rows: "rows = filter (\<lambda>r. case in_expr (query_info L) r of
                         None \<Rightarrow> False | Some b \<Rightarrow> b \<in> set bs) q"
    by (simp add: prepare_query_def)
  show ?thesis
    unfolding rows filter_filter
    by (rule filter_cong) (auto simp: in_expr_def assms(2,3))
qed

lemma bound_in_chunk:
  "traverse f c = Inr bs \<Longrightarrow> k \<in> set c \<Longrightarrow> \<exists>b. f k = Inr b \<and> b \<in> set bs"
  by (induction c arbitrary: bs) (auto split: sum.splits)

lemma pick_append:
  "pick V P (xs @ ys) = (case pick V P ys of None \<Rightarrow> pick V P xs | Some v \<Rightarrow> Some v)"
  by (cases "filter P ys"; cases "filter P xs") (simp_all add: pick_def)

lemma last_write_groups_pick:
  "last_write (concat (map (\<lambda>k. map (\<lambda>a. (a, V k)) (group_of our k)) c)) a
   = pick V (\<lambda>k. a \<in> set (group_of our k)) c"
  by (simp add: last_write_groups pick_def)

text \<open>A run that ends normally: the last assignment to a parent, when the last assignment
  of each chunk is given by a function of the chunk that distributes over append.\<close>

lemma run_chunks_last_write:
  assumes "run_chunks body cs h [] = (h', tr, None)"
    and "\<And>c h h' evs. c \<in> set cs \<Longrightarrow> body c h = (h', evs, None)
           \<Longrightarrow> last_write (writes evs) a = F c"
    and "\<And>xs ys. F (xs @ ys) = (case F ys of None \<Rightarrow> F xs | Some v \<Rightarrow> Some v)"
    and "cs \<noteq> []"
  shows "last_write (writes tr) a = F (concat cs)"
  using assms(1,2,4)
proof (induction cs arbitrary: h h' tr)
  case Nil
  then show ?case by simp
next
  case (Cons c cs)
  obtain h1 evs r1 where b: "body c h = (h1, evs, r1)" by (metis prod_cases3)
  obtain h2 t r2 where rest: "run_chunks body cs h1 [] = (h2, t, r2)" by (metis prod_cases3)
  from b rest Cons.prems(1) have r1: "r1 = None" and tr: "tr = evs @ t" and r2: "r2 = None"
    by (auto simp add: run_chunks_Cons simp del: run_chunks.simps split: option.splits)
  from Cons.prems(2)[of c h h1 evs] b r1 have c: "last_write (writes evs) a = F c" by simp
  show ?case
  proof (cases "cs = []")
    case True
    with rest have "t = []" by simp
    with c True show ?thesis by (simp add: tr)
  next
    case False
    from Cons.IH[OF rest[unfolded r2] _ False] Cons.prems(2)
    have "last_write (writes t) a = F (concat cs)" by simp
    with c show ?thesis
      by (simp add: tr last_write_append assms(3) split: option.splits)
  qed
qed

lemma via_child_chunk_data:
  assumes "via_child_chunk L exec our none c h = (h', evs, None)"
  shows "\<exists>bs rows d. traverse (bind_key (zero_idx (query_info L))) c = Inr bs
           \<and> exec bs = Inr rows \<and> child_data (target_mapper L) rows [] = Inr d
           \<and> writes evs = child_writes (uselist L) our none d c"
  using assms by (auto simp: via_child_chunk_def Let_def split: sum.splits)

lemma via_child_chunk_matched:
  assumes "via_child_chunk L (prepare_query L q) our none c h = (h', evs, None)"
    and pk: "primary_key (target_mapper L) = pk_cols (query_info L)"
  shows "writes evs
         = concat (map (\<lambda>k. map (\<lambda>a. (a, matched_value L q k)) (group_of our k)) c)
           @ map (\<lambda>a. (a, VNone)) none"
proof -
  from via_child_chunk_data[OF assms(1)] obtain bs rows d
    where bs: "traverse (bind_key (zero_idx (query_info L))) c = Inr bs"
      and rows: "prepare_query L q bs = Inr rows"
      and d: "child_data (target_mapper L) rows [] = Inr d"
      and w: "writes evs = child_writes (uselist L) our none d c" by blast
  have "child_value (uselist L) d k = matched_value L q k" if "k \<in> set c" for k
  proof -
    from bound_in_chunk[OF bs that] obtain b
      where b: "bind_key (zero_idx (query_info L)) k = Inr b" "b \<in> set bs" by blast
    from prepare_query_rows[OF rows b] child_data_lookup[OF d, of k]
    have "map_of d k = matched_row L q k"
      by (simp add: matched_row_def get_primary_key_tuple_def pk split: list.splits)
    then show ?thesis
      by (simp add: child_value_def related_obj_def matched_value_def)
  qed
  then have "map (\<lambda>k. map (\<lambda>a. (a, child_value (uselist L) d k)) (group_of our k)) c
           = map (\<lambda>k. map (\<lambda>a. (a, matched_value L q k)) (group_of our k)) c"
    by (intro map_cong) auto
  with w show ?thesis by (simp add: child_writes_def)
qed

lemma via_child_chunk_last_write:
  assumes "via_child_chunk L (prepare_query L q) our none c h = (h', evs, None)"
    and "primary_key (target_mapper L) = pk_cols (query_info L)"
  shows "last_write (writes evs) a
         = (if a \<in> set none then Some VNone
            else pick (matched_value L q) (\<lambda>k. a \<in> set (group_of our k)) c)"
  unfolding via_child_chunk_matched[OF assms]
  by (simp add: last_write_append last_write_const last_write_groups_pick)

lemma populate_parent_matched:
  assumes "populate_parent L d (k, a) h = (h', evs, None)"
    and "map_of d k = (case matched_rows L q k of [] \<Rightarrow> None | rs \<Rightarrow> Some rs)"
  shows "writes evs = [(a, collection_value L q k)]"
  using assms
  by (auto simp: populate_parent_def data_get_def empty_result_def collection_value_def
           split: if_splits option.splits list.splits)

lemma populate_parents_matched:
  assumes "populate_parents L d ps h = (h', evs, None)"
    and "\<And>k a. (k, a) \<in> set ps
           \<Longrightarrow> map_of d k = (case matched_rows L q k of [] \<Rightarrow> None | rs \<Rightarrow> Some rs)"
  shows "writes evs = map (\<lambda>(k, a). (a, collection_value L q k)) ps"
  using assms
proof (induction ps arbitrary: h h' evs)
  case Nil
  then show ?case by simp
next
  case (Cons p ps)
  obtain k a where p: "p = (k, a)" by (cases p)
  obtain h1 e1 r1 where p1: "populate_parent L d (k, a) h = (h1, e1, r1)" by (metis prod_cases3)
  obtain h2 e2 r2 where p2: "populate_parents L d ps h1 = (h2, e2, r2)" by (metis prod_cases3)
  from Cons.prems(1) p p1 p2 have r1: "r1 = None" and r2: "r2 = None" and evs: "evs = e1 @ e2"
    by (auto split: option.splits)
  from populate_parent_matched[OF p1[unfolded r1]] Cons.prems(2)[of k a] p
  have w1: "writes e1 = [(a, collection_value L q k)]" by simp
  have "map_of d k' = (case matched_rows L q k' of [] \<Rightarrow> None | rs \<Rightarrow> Some rs)"
    if "(k', a') \<in> set ps" for k' a'
    using Cons.prems(2)[of k' a'] that by simp
  from Cons.IH[OF p2[unfolded r2] this]
  have "writes e2 = map (\<lambda>(k, a). (a, collection_value L q k)) ps" .
  with w1 show ?case by (simp add: evs p)
qed

lemma via_parent_chunk_matched:
  assumes "via_parent_chunk L (prepare_query L q) c h = (h', evs, None)"
  shows "writes evs = map (\<lambda>(k, a). (a, collection_value L q k)) c"
proof -
  from assms obtain bs rows d evs'
    where bs: "traverse (bind_key (zero_idx (query_info L))) (map fst c) = Inr bs"
      and rows: "prepare_query L q bs = Inr rows"
      and d: "parent_data (query_info L) rows [] = Inr d"
      and pp: "populate_parents L d c h = (h', evs', None)"
      and evs: "evs = Execute bs # evs'"
    by (auto simp: via_parent_chunk_def split: sum.splits prod.splits)
  have "map_of d k = (case matched_rows L q k of [] \<Rightarrow> None | rs \<Rightarrow> Some rs)"
    if "(k, a) \<in> set c" for k a
  proof -
    from that have "k \<in> set (map fst c)" by force
    from bound_in_chunk[OF bs this] obtain b
      where b: "bind_key (zero_idx (query_info L)) k = Inr b" "b \<in> set bs" by blast
    from prepare_query_rows[OF rows b] parent_data_lookup[OF d, of k]
    show ?thesis
      by (simp add: matched_rows_def get_foreign_key_tuple_def split: list.splits)
  qed
  from populate_parents_matched[OF pp this] show ?thesis by (simp add: evs)
qed

lemma length_insert_key [simp]: "length (insert_key k xs) = Suc (length xs)"
  by (induction xs) auto

lemma sorted_keys_length: "sorted_keys ks = Inr ks' \<Longrightarrow> length ks' = length ks"
proof -
  have "length (foldr insert_key ks []) = length ks" by (induction ks) auto
  then show "sorted_keys ks = Inr ks' \<Longrightarrow> length ks' = length ks"
    by (auto simp: sorted_keys_def split: if_splits)
qed

lemma chunked_empty_iff: "0 < n \<Longrightarrow> chunked n xs = [] \<longleftrightarrow> xs = []"
  by (cases xs) (simp_all add: chunked_Cons)

text \<open>The last assignment to a parent and the number of queries in a MANYTOONE run that
  ends normally, in terms that do not mention the chunks.\<close>

lemma load_via_child_final:
  assumes pos: "0 < CHUNKSIZE L"
    and pk: "primary_key (target_mapper L) = pk_cols (query_info L)"
    and run: "load_via_child L (prepare_query L q) our none h = Some (h', tr, None)"
  shows "\<exists>ks. sorted_keys (map fst our) = Inr ks
           \<and> last_write (writes tr) a
               = (if ks = [] then None
                  else if a \<in> set none then Some VNone
                  else pick (matched_value L q) (\<lambda>k. a \<in> set (group_of our k)) ks)"
    and "queries tr = ceil_div (length our) (CHUNKSIZE L)"
proof -
  let ?body = "via_child_chunk L (prepare_query L q) our none"
  let ?F = "\<lambda>c. if a \<in> set none then Some VNone
                 else pick (matched_value L q) (\<lambda>k. a \<in> set (group_of our k)) c"
  from run obtain ks where sk: "sorted_keys (map fst our) = Inr ks"
    by (cases "sorted_keys (map fst our)") (auto simp: load_via_child_def)
  with run pos have rc: "run_chunks ?body (chunked (CHUNKSIZE L) ks) h [] = (h', tr, None)"
    by (simp add: load_via_child_def drain_chunked)
  have lw: "last_write (writes tr) a = (if ks = [] then None else ?F ks)"
  proof (cases "ks = []")
    case True
    with rc show ?thesis by simp
  next
    case False
    then have ne: "chunked (CHUNKSIZE L) ks \<noteq> []" by (simp add: chunked_empty_iff[OF pos])
    have "last_write (writes tr) a = ?F (concat (chunked (CHUNKSIZE L) ks))"
    proof (rule run_chunks_last_write[OF rc _ _ ne])
      show "last_write (writes evs) a = ?F c"
        if "?body c h0 = (h1, evs, None)" for c h0 h1 evs
        using via_child_chunk_last_write[OF that pk] .
      show "?F (xs @ ys) = (case ?F ys of None \<Rightarrow> ?F xs | Some v \<Rightarrow> Some v)" for xs ys
        by (simp add: pick_append)
    qed
    with False show ?thesis by (simp add: concat_chunked[OF pos])
  qed
  with sk show "\<exists>ks. sorted_keys (map fst our) = Inr ks
           \<and> last_write (writes tr) a
               = (if ks = [] then None
                  else if a \<in> set none then Some VNone
                  else pick (matched_value L q) (\<lambda>k. a \<in> set (group_of our k)) ks)"
    by simp
  from run_chunks_executed[OF rc, of "traverse (bind_key (zero_idx (query_info L)))"]
    via_child_chunk_executed
  have "traverse (traverse (bind_key (zero_idx (query_info L)))) (chunked (CHUNKSIZE L) ks)
        = Inr (executed tr)" by blast
  from traverse_length[OF this] sorted_keys_length[OF sk]
  show "queries tr = ceil_div (length our) (CHUNKSIZE L)"
    by (simp add: queries_def length_chunked[OF pos])
qed

lemma load_via_parent_final:
  assumes pos: "0 < CHUNKSIZE L"
    and run: "load_via_parent L (prepare_query L q) our h = Some (h', tr, None)"
  shows "last_write (writes tr) a
         = last_write (map (\<lambda>(k, a). (a, collection_value L q k)) our) a"
    and "queries tr = ceil_div (length our) (CHUNKSIZE L)"
proof -
  let ?body = "via_parent_chunk L (prepare_query L q)"
  let ?F = "\<lambda>c. last_write (map (\<lambda>(k, a). (a, collection_value L q k)) c) a"
  from run pos have rc: "run_chunks ?body (chunked (CHUNKSIZE L) our) h [] = (h', tr, None)"
    by (simp add: load_via_parent_def drain_chunked)
  show "last_write (writes tr) a = ?F our"
  proof (cases "our = []")
    case True
    with rc show ?thesis by simp
  next
    case False
    then have ne: "chunked (CHUNKSIZE L) our \<noteq> []" by (simp add: chunked_empty_iff[OF pos])
    have "last_write (writes tr) a = ?F (concat (chunked (CHUNKSIZE L) our))"
    proof (rule run_chunks_last_write[OF rc _ _ ne])
      show "last_write (writes evs) a = ?F c"
        if "?body c h0 = (h1, evs, None)" for c h0 h1 evs
        using via_parent_chunk_matched[OF that] by simp
      show "?F (xs @ ys) = (case ?F ys of None \<Rightarrow> ?F xs | Some v \<Rightarrow> Some v)" for xs ys
        by (simp add: last_write_append)
    qed
    then show ?thesis by (simp add: concat_chunked[OF pos])
  qed
  from run_chunks_executed[OF rc,
         of "\<lambda>c. traverse (bind_key (zero_idx (query_info L))) (map fst c)"]
    via_parent_chunk_executed
  have "traverse (\<lambda>c. traverse (bind_key (zero_idx (query_info L))) (map fst c))
          (chunked (CHUNKSIZE L) our) = Inr (executed tr)" by blast
  from traverse_length[OF this]
  show "queries tr = ceil_div (length our) (CHUNKSIZE L)"
    by (simp add: queries_def length_chunked[OF pos])
qed

lemma prepare_query_chunksize [simp]:
  "prepare_query (L\<lparr>CHUNKSIZE := n\<rparr>) = prepare_query L"
  by (simp add: prepare_query_def fun_eq_iff)

lemma matched_value_chunksize [simp]:
  "matched_value (L\<lparr>CHUNKSIZE := n\<rparr>) = matched_value L"
  by (simp add: matched_value_def matched_row_def fun_eq_iff)

lemma collection_value_chunksize [simp]:
  "collection_value (L\<lparr>CHUNKSIZE := n\<rparr>) = collection_value L"
  by (simp add: collection_value_def matched_rows_def fun_eq_iff split: list.splits)

lemma heap_eq_by_last_write:
  assumes "\<And>a. last_write ws1 a = last_write ws2 a"
  shows "assign_all f ws1 h = assign_all f ws2 h"
  by (rule ext) (simp add: assign_all_at assms)

text \<open>
  C6, as stated, fails: for a deterministic executor whose result for a key depends on the
  other keys of the batch, the chunk size shows in the final state. With a base query
  limited to one row, the parents \<^verbatim>\<open>{id: 1, parent_id: 5}\<close> and \<^verbatim>\<open>{id: 2, parent_id: 6}\<close>
  both get their target with chunk size 1, and only the first does with chunk size 2.
\<close>

theorem limited_query_counterexample:
  "final_fields (load (many_to_one False 1)
       (with_limit 1 (prepare_query (many_to_one False 1) [target_row 5 ''X'', target_row 6 ''Y'']))
       (store [child_of 1 (VInt 5), child_of 2 (VInt 6)]) [0, 1]) ''parent'' [0, 1]
   \<noteq> final_fields (load (many_to_one False 2)
       (with_limit 1 (prepare_query (many_to_one False 2) [target_row 5 ''X'', target_row 6 ''Y'']))
       (store [child_of 1 (VInt 5), child_of 2 (VInt 6)]) [0, 1]) ''parent'' [0, 1]"
  by code_simp

text \<open>
  C6, amended. Let the executor be the prepared query over fixed base rows: for any bound
  key list it returns, in their order, the base rows whose \<^verbatim>\<open>in_expr\<close> value is in the
  list (in the MANYTOONE path \<^verbatim>\<open>in_expr\<close> is over the target's primary key). Then two runs
  on the same prepared parents with chunk sizes \<open>B1, B2 \<ge> 1\<close> that both end without an
  exception leave the same store, and each executes \<open>ceil(groupCount / B)\<close> queries.
\<close>

theorem chunk_size_invariance:
  assumes "0 < CHUNKSIZE L" and "0 < B"
    and "load_only_child (query_info L)
         \<longrightarrow> primary_key (target_mapper L) = pk_cols (query_info L)"
    and "fetch_results_and_populate_states L (prepare_query L q) p h = Some (h1, tr1, None)"
    and "fetch_results_and_populate_states (L\<lparr>CHUNKSIZE := B\<rparr>) (prepare_query L q) p h
         = Some (h2, tr2, None)"
  shows "h1 = h2
       \<and> queries tr1 = ceil_div (group_count L p) (CHUNKSIZE L)
       \<and> queries tr2 = ceil_div (group_count L p) B"
proof (cases "load_only_child (query_info L)")
  case True
  let ?L2 = "L\<lparr>CHUNKSIZE := B\<rparr>"
  let ?our = "our_states_dict p" and ?none = "none_states p"
  from True assms(3) have pk: "primary_key (target_mapper L) = pk_cols (query_info L)"
    and pk2: "primary_key (target_mapper ?L2) = pk_cols (query_info ?L2)" by simp_all
  from True assms(4)
  have r1: "load_via_child L (prepare_query L q) ?our ?none h = Some (h1, tr1, None)"
    by (simp add: fetch_results_and_populate_states_def)
  from True assms(5)
  have r2: "load_via_child ?L2 (prepare_query ?L2 q) ?our ?none h = Some (h2, tr2, None)"
    by (simp add: fetch_results_and_populate_states_def)
  have pos2: "0 < CHUNKSIZE ?L2" using assms(2) by simp
  have "last_write (writes tr1) a = last_write (writes tr2) a" for a
    using load_via_child_final(1)[OF assms(1) pk r1, of a]
      load_via_child_final(1)[OF pos2 pk2 r2, of a]
    by auto
  from heap_eq_by_last_write[of "writes tr1" "writes tr2", OF this]
    load_via_child_replay[OF r1] load_via_child_replay[OF r2]
  have "h1 = h2" by simp
  with load_via_child_final(2)[OF assms(1) pk r1] load_via_child_final(2)[OF pos2 pk2 r2] True
  show ?thesis by (simp add: group_count_def)
next
  case False
  let ?L2 = "L\<lparr>CHUNKSIZE := B\<rparr>"
  let ?our = "our_states_list p"
  from False assms(4)
  have r1: "load_via_parent L (prepare_query L q) ?our h = Some (h1, tr1, None)"
    by (simp add: fetch_results_and_populate_states_def)
  from False assms(5)
  have r2: "load_via_parent ?L2 (prepare_query ?L2 q) ?our h = Some (h2, tr2, None)"
    by (simp add: fetch_results_and_populate_states_def)
  have pos2: "0 < CHUNKSIZE ?L2" using assms(2) by simp
  have "last_write (writes tr1) a = last_write (writes tr2) a" for a
    using load_via_parent_final(1)[OF assms(1) r1, of a]
      load_via_parent_final(1)[OF pos2 r2, of a]
    by simp
  from heap_eq_by_last_write[of "writes tr1" "writes tr2", OF this]
    load_via_parent_replay[OF r1] load_via_parent_replay[OF r2]
  have "h1 = h2" by simp
  with load_via_parent_final(2)[OF assms(1) r1] load_via_parent_final(2)[OF pos2 r2] False
  show ?thesis by (simp add: group_count_def)
qed

theorem chunk_size_invariance_witness:
  "\<exists>h1 tr1 h2 tr2.
     fetch_results_and_populate_states (many_to_one False 1)
       (prepare_query (many_to_one False 1) [target_row 5 ''X'', target_row 6 ''Y''])
       \<lparr>our_states_dict = [([VInt 6], [0]), ([VInt 5], [1])], none_states = [2],
        our_states_list = []\<rparr>
       (store [child_of 1 (VInt 6), child_of 2 (VInt 5), child_of 3 VNone])
     = Some (h1, tr1, None)
   \<and> fetch_results_and_populate_states ((many_to_one False 1)\<lparr>CHUNKSIZE := 2\<rparr>)
       (prepare_query (many_to_one False 1) [target_row 5 ''X'', target_row 6 ''Y''])
       \<lparr>our_states_dict = [([VInt 6], [0]), ([VInt 5], [1])], none_states = [2],
        our_states_list = []\<rparr>
       (store [child_of 1 (VInt 6), child_of 2 (VInt 5), child_of 3 VNone])
     = Some (h2, tr2, None)
   \<and> h1 = h2 \<and> queries tr1 = 2 \<and> queries tr2 = 1"
proof -
  let ?L = "many_to_one False 1"
  let ?e = "prepare_query ?L [target_row 5 ''X'', target_row 6 ''Y'']"
  let ?h = "store [child_of 1 (VInt 6), child_of 2 (VInt 5), child_of 3 VNone]"
  let ?p = "\<lparr>our_states_dict = [([VInt 6], [0]), ([VInt 5], [1])], none_states = [2],
             our_states_list = []\<rparr>"
  have pos: "0 < CHUNKSIZE ?L" and pos2: "0 < (2::nat)"
    and pk: "load_only_child (query_info ?L)
             \<longrightarrow> primary_key (target_mapper ?L) = pk_cols (query_info ?L)"
    by (simp_all add: many_to_one_def)
  have "map_option (\<lambda>(h, tr, r). r) (fetch_results_and_populate_states ?L ?e ?p ?h) = Some None"
    by code_simp
  then obtain h1 tr1 where r1: "fetch_results_and_populate_states ?L ?e ?p ?h = Some (h1, tr1, None)"
    by auto
  have "map_option (\<lambda>(h, tr, r). r)
          (fetch_results_and_populate_states (?L\<lparr>CHUNKSIZE := 2\<rparr>) ?e ?p ?h) = Some None"
    by code_simp
  then obtain h2 tr2
    where r2: "fetch_results_and_populate_states (?L\<lparr>CHUNKSIZE := 2\<rparr>) ?e ?p ?h
               = Some (h2, tr2, None)"
    by auto
  have gc: "ceil_div (group_count ?L ?p) (CHUNKSIZE ?L) = 2" "ceil_div (group_count ?L ?p) 2 = 1"
    by (simp_all add: many_to_one_def group_count_def ceil_div_def)
  from chunk_size_invariance[OF pos pos2 pk r1 r2] gc r1 r2
  show ?thesis by simp
qed

section \<open>Where completeness and the null-key rule do hold\<close>

lemma collect_states_idents:
  "collect_states qi h as our none = Inr (our', none') \<Longrightarrow> a \<in> set as
   \<Longrightarrow> \<exists>k. traverse (getitem (h a)) (child_lookup_cols qi) = Inr k"
proof (induction as arbitrary: our none)
  case Nil
  then show ?case by simp
next
  case (Cons x as)
  from Cons.prems(1) obtain k where k: "traverse (getitem (h x)) (child_lookup_cols qi) = Inr k"
    by (auto split: sum.splits)
  show ?case
  proof (cases "a = x")
    case True
    with k show ?thesis by blast
  next
    case False
    with Cons.prems(2) have "a \<in> set as" by simp
    with Cons.prems(1) k Cons.IH show ?thesis
      by (auto split: if_splits)
  qed
qed

text \<open>No key with a null component is ever bound.\<close>

lemma null_key_never_bound:
  assumes "0 < CHUNKSIZE L" and "load_only_child (query_info L)"
    and "prepare_states L h states = Inr p"
    and "fetch_results_and_populate_states L exec p h = Some (h', tr, r)"
    and "bs \<in> set (executed tr)"
  shows "\<exists>c. traverse (bind_key (zero_idx (query_info L))) c = Inr bs
           \<and> (\<forall>k \<in> set c. VNone \<notin> set k)"
proof -
  let ?our = "our_states_dict p" and ?none = "none_states p"
  note cs = prepare_states_child[OF assms(3,2)]
  from collect_states_keys[OF cs]
  have nn: "\<forall>k \<in> fst ` set ?our. VNone \<notin> set k" by auto
  from assms(2,4) have lvc: "load_via_child L exec ?our ?none h = Some (h', tr, r)"
    by (simp add: fetch_results_and_populate_states_def)
  show ?thesis
  proof (cases "sorted_keys (map fst ?our)")
    case (Inl e)
    with lvc assms(5) show ?thesis by (simp add: load_via_child_def)
  next
    case (Inr ks)
    from sorted_keys_sorted[OF Inr prepare_states_distinct[OF assms(3,2)]]
    have ks: "set ks = fst ` set ?our" by simp
    from lvc Inr assms(1)
    have rc: "run_chunks (via_child_chunk L exec ?our ?none) (chunked (CHUNKSIZE L) ks) h []
              = (h', tr, r)"
      by (simp add: load_via_child_def drain_chunked)
    from run_chunks_executed[OF rc, of "traverse (bind_key (zero_idx (query_info L)))"]
      via_child_chunk_executed assms(5)
    obtain c where c: "c \<in> set (chunked (CHUNKSIZE L) ks)"
      "traverse (bind_key (zero_idx (query_info L))) c = Inr bs" by blast
    from chunked_subset[OF c(1)] ks nn have "\<forall>k \<in> set c. VNone \<notin> set k" by blast
    with c(2) show ?thesis by blast
  qed
qed

text \<open>When the MANYTOONE run has at least one key and ends normally, every parent has its
  relationship field set.\<close>

lemma via_child_populated:
  assumes pos: "0 < CHUNKSIZE L" and child: "load_only_child (query_info L)"
    and prep: "prepare_states L h states = Inr p"
    and run: "fetch_results_and_populate_states L exec p h = Some (h', tr, None)"
    and ne: "our_states_dict p \<noteq> []"
    and a: "a \<in> set states"
  shows "h' a (key L) \<noteq> None"
proof -
  let ?our = "our_states_dict p" and ?none = "none_states p"
  let ?body = "via_child_chunk L exec ?our ?none"
  note cs = prepare_states_child[OF prep child]
  from collect_states_idents[OF cs a] obtain k
    where k: "traverse (getitem (h a)) (child_lookup_cols (query_info L)) = Inr k" by blast
  from run child obtain ks where sk: "sorted_keys (map fst ?our) = Inr ks"
    and lvc: "load_via_child L exec ?our ?none h = Some (h', tr, None)"
    by (cases "sorted_keys (map fst ?our)")
       (auto simp: fetch_results_and_populate_states_def load_via_child_def)
  from sorted_keys_sorted[OF sk prepare_states_distinct[OF prep child]]
  have ks: "set ks = fst ` set ?our" by simp
  from lvc sk pos
  have rc: "run_chunks ?body (chunked (CHUNKSIZE L) ks) h [] = (h', tr, None)"
    by (simp add: load_via_child_def drain_chunked)
  have "\<exists>c \<in> set (chunked (CHUNKSIZE L) ks). a \<in> set ?none \<or> (\<exists>k \<in> set c. a \<in> set (group_of ?our k))"
  proof (cases "VNone \<in> set k")
    case True
    with collect_states_none[OF cs] a k have "a \<in> set ?none" by auto
    moreover from ne ks have "ks \<noteq> []" by (cases ?our) auto
    then have "chunked (CHUNKSIZE L) ks \<noteq> []" by (simp add: chunked_empty_iff[OF pos])
    ultimately show ?thesis by (cases "chunked (CHUNKSIZE L) ks") auto
  next
    case False
    with collect_states_groups[OF cs, of k] a k have g: "a \<in> set (group_of ?our k)"
      by (simp add: group_of_def)
    from collect_states_keys[OF cs] a k False ks have "k \<in> set ks" by auto
    from in_chunked[OF pos this] g show ?thesis by blast
  qed
  then obtain c where c: "c \<in> set (chunked (CHUNKSIZE L) ks)"
    and mem: "a \<in> set ?none \<or> (\<exists>k \<in> set c. a \<in> set (group_of ?our k))" by blast
  have w: "last_write (writes evs) a \<noteq> None" if "?body c h0 = (h1, evs, None)" for h0 h1 evs
  proof -
    from via_child_chunk_writes[OF that] obtain d
      where "writes evs = child_writes (uselist L) ?our ?none d c" by auto
    moreover from mem have "a \<in> set ?none \<or> filter (\<lambda>k'. a \<in> set (group_of ?our k')) c \<noteq> []"
      by (auto simp: filter_empty_conv)
    ultimately show ?thesis
      by (auto simp: last_write_child_writes split: list.splits)
  qed
  have "last_write (writes tr) a \<noteq> None"
    by (rule run_chunks_written[OF rc c]) (rule w)
  with load_via_child_replay[OF lvc] show ?thesis
    by (auto simp: assign_all_at)
qed

lemma populate_parents_addresses:
  "populate_parents L d ps h = (h', evs, None) \<Longrightarrow> map fst (writes evs) = map snd ps"
proof (induction ps arbitrary: h h' evs)
  case Nil
  then show ?case by simp
next
  case (Cons p ps)
  obtain k a where p: "p = (k, a)" by (cases p)
  obtain h1 e1 r1 where p1: "populate_parent L d (k, a) h = (h1, e1, r1)" by (metis prod_cases3)
  obtain h2 e2 r2 where p2: "populate_parents L d ps h1 = (h2, e2, r2)" by (metis prod_cases3)
  from Cons.prems(1) p p1 p2 have r1: "r1 = None" and r2: "r2 = None" and evs: "evs = e1 @ e2"
    by (auto split: option.splits)
  from p1 r1 have "map fst (writes e1) = [a]"
    by (auto simp: populate_parent_def split: if_splits option.splits list.splits)
  with Cons.IH[OF p2[unfolded r2]] show ?case by (simp add: evs p)
qed

lemma traverse_pair_state_snd:
  "traverse (pair_state m h) states = Inr ps \<Longrightarrow> map snd ps = states"
  by (induction states arbitrary: ps) (auto simp: pair_state_def split: sum.splits)

lemma via_parent_chunk_addresses:
  assumes "via_parent_chunk L exec c h = (h', evs, None)"
  shows "map fst (writes evs) = map snd c"
  using assms
  by (auto simp: via_parent_chunk_def split: sum.splits prod.splits
           dest: populate_parents_addresses)

text \<open>When the run of \<^verbatim>\<open>_load_via_parent\<close> ends normally, every parent has its
  relationship field set.\<close>

lemma via_parent_populated:
  assumes pos: "0 < CHUNKSIZE L" and parent: "\<not> load_only_child (query_info L)"
    and prep: "prepare_states L h states = Inr p"
    and run: "fetch_results_and_populate_states L exec p h = Some (h', tr, None)"
    and a: "a \<in> set states"
  shows "h' a (key L) \<noteq> None"
proof -
  let ?our = "our_states_list p"
  let ?body = "via_parent_chunk L exec"
  from traverse_pair_state_snd[OF prepare_states_parent[OF prep parent]] a
  obtain k where ka: "(k, a) \<in> set ?our" by force
  from run parent have lvp: "load_via_parent L exec ?our h = Some (h', tr, None)"
    by (simp add: fetch_results_and_populate_states_def)
  with pos have rc: "run_chunks ?body (chunked (CHUNKSIZE L) ?our) h [] = (h', tr, None)"
    by (simp add: load_via_parent_def drain_chunked)
  from in_chunked[OF pos ka] obtain c
    where c: "c \<in> set (chunked (CHUNKSIZE L) ?our)" and kc: "(k, a) \<in> set c" by blast
  have w: "last_write (writes evs) a \<noteq> None" if "?body c h0 = (h1, evs, None)" for h0 h1 evs
  proof -
    from via_parent_chunk_addresses[OF that] kc
    have "a \<in> set (map fst (writes evs))" by force
    then show ?thesis by (simp add: last_write_None_iff)
  qed
  have "last_write (writes tr) a \<noteq> None"
    by (rule run_chunks_written[OF rc c]) (rule w)
  with load_via_parent_replay[OF lvp] show ?thesis
    by (auto simp: assign_all_at)
qed

section \<open>Rows are yielded under their own parent\<close>

lemma yields_owned_append:
  "yields_owned qi our cur t1 \<Longrightarrow> (\<And>c. yields_owned qi our c t2)
   \<Longrightarrow> yields_owned qi our cur (t1 @ t2)"
  by (induction qi our cur t1 rule: yields_owned.induct) auto

lemma yields_owned_Yields:
  assumes "(k, a) \<in> set our"
    and "\<forall>r \<in> set rs. get_foreign_key_tuple (map_of r) qi = Inr k"
  shows "yields_owned qi our (Some a) (map Yield rs)"
  using assms by (induction rs) (auto simp: list_ex_iff)

text \<open>The rows the dict holds under a key all have that key.\<close>

lemma parent_data_keys:
  assumes "parent_data qi rows [] = Inr d" and "map_of d k = Some rs"
  shows "rs \<noteq> [] \<and> (\<forall>r \<in> set rs. get_foreign_key_tuple (map_of r) qi = Inr k)"
proof -
  let ?P = "\<lambda>r. get_foreign_key_tuple (map_of r) qi = Inr k"
  from parent_data_lookup[OF assms(1), of k] assms(2)
  have "rs = filter ?P rows" and "filter ?P rows \<noteq> []"
    by (auto split: list.splits)
  then show ?thesis by auto
qed

lemma populate_parent_owned:
  assumes "populate_parent L d (k, a) h = (h', evs, r)"
    and "(k, a) \<in> set our"
    and "\<And>rs. map_of d k = Some rs
           \<Longrightarrow> \<forall>r \<in> set rs. get_foreign_key_tuple (map_of r) (query_info L) = Inr k"
  shows "yields_owned (query_info L) our cur evs"
proof (cases "data_get (uselist L) d k")
  case None
  with assms(1) show ?thesis
    by (auto simp: populate_parent_def split: if_splits)
next
  case (Some rs)
  have own: "yields_owned (query_info L) our (Some a) (map Yield rs)"
  proof (cases "map_of d k")
    case None
    with Some have "rs = []" by (auto simp: data_get_def empty_result_def split: if_splits)
    then show ?thesis by simp
  next
    case (Some rs')
    with \<open>data_get (uselist L) d k = Some rs\<close> have "rs' = rs" by (simp add: data_get_def)
    with assms(3)[OF Some] show ?thesis
      by (intro yields_owned_Yields[OF assms(2)]) simp
  qed
  from assms(1) Some own show ?thesis
    by (cases rs) (auto simp: populate_parent_def split: if_splits)
qed

lemma populate_parents_owned:
  assumes "populate_parents L d ps h = (h', evs, r)"
    and "set ps \<subseteq> set our"
    and "\<And>k rs. map_of d k = Some rs
           \<Longrightarrow> \<forall>r \<in> set rs. get_foreign_key_tuple (map_of r) (query_info L) = Inr k"
  shows "yields_owned (query_info L) our cur evs"
  using assms(1,2)
proof (induction ps arbitrary: h h' evs r cur)
  case Nil
  then show ?case by simp
next
  case (Cons p ps)
  obtain k a where p: "p = (k, a)" by (cases p)
  obtain h1 e1 r1 where p1: "populate_parent L d (k, a) h = (h1, e1, r1)" by (metis prod_cases3)
  from Cons.prems(2) p have mem: "(k, a) \<in> set our" and sub: "set ps \<subseteq> set our" by auto
  note own1 = populate_parent_owned[OF p1 mem assms(3)]
  show ?case
  proof (cases r1)
    case None
    obtain h2 e2 r2 where p2: "populate_parents L d ps h1 = (h2, e2, r2)" by (metis prod_cases3)
    with Cons.prems(1) p p1 None have "evs = e1 @ e2" by simp
    with own1 Cons.IH[OF p2 sub] show ?thesis
      by (simp add: yields_owned_append)
  next
    case (Some e)
    with Cons.prems(1) p p1 have "evs = e1" by simp
    with own1 show ?thesis by simp
  qed
qed

lemma via_parent_chunk_owned:
  assumes "via_parent_chunk L exec c h = (h', evs, r)" and "set c \<subseteq> set our"
  shows "yields_owned (query_info L) our cur evs"
proof -
  from assms(1) consider (fail) "evs = [] \<or> (\<exists>bs. evs = [Execute bs])"
    | (run) bs rows d evs' where "parent_data (query_info L) rows [] = Inr d"
        "populate_parents L d c h = (h', evs', r)" "evs = Execute bs # evs'"
    by (auto simp: via_parent_chunk_def split: sum.splits prod.splits)
  then show ?thesis
  proof cases
    case fail
    then show ?thesis by auto
  next
    case run
    from populate_parents_owned[OF run(2) assms(2), of None] parent_data_keys[OF run(1)]
    show ?thesis by (simp add: run(3))
  qed
qed

lemma run_chunks_owned:
  assumes "run_chunks body cs h [] = (h', tr, r)"
    and "\<And>c h h' evs r cur. c \<in> set cs \<Longrightarrow> body c h = (h', evs, r)
           \<Longrightarrow> yields_owned qi our cur evs"
  shows "yields_owned qi our cur tr"
  using assms
proof (induction cs arbitrary: h h' tr r cur)
  case Nil
  then show ?case by simp
next
  case (Cons c cs)
  obtain h1 evs r1 where b: "body c h = (h1, evs, r1)" by (metis prod_cases3)
  have own: "yields_owned qi our cur' evs" for cur'
    using Cons.prems(2)[of c h h1 evs r1 cur'] b by simp
  show ?case
  proof (cases r1)
    case (Some e)
    with b Cons.prems(1) have "tr = evs" by (simp add: run_chunks_Cons del: run_chunks.simps)
    with own show ?thesis by simp
  next
    case None
    obtain h2 t r2 where rest: "run_chunks body cs h1 [] = (h2, t, r2)" by (metis prod_cases3)
    with b None Cons.prems(1) have tr: "tr = evs @ t"
      by (simp add: run_chunks_Cons del: run_chunks.simps)
    have "yields_owned qi our c' t" for c'
      by (rule Cons.IH[OF rest]) (rule Cons.prems(2), auto)
    with own show ?thesis by (simp add: tr yields_owned_append)
  qed
qed

lemma load_via_parent_owned:
  assumes "0 < CHUNKSIZE L" and "load_via_parent L exec our h = Some (h', tr, r)"
  shows "yields_owned (query_info L) our None tr"
proof -
  from assms
  have rc: "run_chunks (via_parent_chunk L exec) (chunked (CHUNKSIZE L) our) h [] = (h', tr, r)"
    by (simp add: load_via_parent_def drain_chunked)
  show ?thesis
    by (rule run_chunks_owned[OF rc]) (auto intro: via_parent_chunk_owned dest: chunked_subset)
qed

text \<open>
  C3, amended. With a positive chunk size: in \<^verbatim>\<open>_load_via_child\<close>, whenever a row is
  yielded every parent of the batch that produced it (the parents of the keys of the chunk
  and the parents of \<^verbatim>\<open>none_states\<close>) has already been written. In \<^verbatim>\<open>_load_via_parent\<close>
  rows are yielded parent by parent: a row is yielded only right after the assignment to a
  parent under whose key the row is grouped (its foreign-key tuple is the primary-key tuple
  paired with that parent), or after another row yielded for that parent.
\<close>

theorem population_precedes_yield:
  assumes "0 < CHUNKSIZE L"
    and "fetch_results_and_populate_states L exec p h = Some (h', tr, r)"
  shows "(load_only_child (query_info L) \<longrightarrow> batch_populated_before_yield L p tr)
       \<and> (\<not> load_only_child (query_info L)
            \<longrightarrow> yields_owned (query_info L) (our_states_list p) None tr)"
  using assms
  by (auto simp: fetch_results_and_populate_states_def batch_populated_before_yield_def
           split: sum.splits dest: load_via_child_batches load_via_parent_owned)

theorem population_precedes_yield_witness:
  "0 < CHUNKSIZE (many_to_one False 500)
   \<and> yields_after_batch (many_to_one False 500)
        (prepare_query (many_to_one False 500) [target_row 5 ''X''])
        (store [child_of 1 (VInt 5), child_of 2 VNone, child_of 3 (VInt 5)]) [0, 1, 2]
   \<and> 0 < CHUNKSIZE (one_to_many True 2)
   \<and> yields_owned (query_info (one_to_many True 2))
        [([VInt 10], 0), ([VInt 20], 1), ([VInt 30], 2)] None
        (trace_of (fetch_results_and_populate_states (one_to_many True 2)
           (prepare_query (one_to_many True 2)
              [owned_row 100 10, owned_row 200 20, owned_row 101 10, owned_row 300 30])
           \<lparr>our_states_dict = [], none_states = [],
            our_states_list = [([VInt 10], 0), ([VInt 20], 1), ([VInt 30], 2)]\<rparr>
           (store [owner 10, owner 20, owner 30])))"
proof -
  let ?L = "many_to_one False 500"
  let ?e = "prepare_query ?L [target_row 5 ''X'']"
  let ?h = "store [child_of 1 (VInt 5), child_of 2 VNone, child_of 3 (VInt 5)]"
  let ?p = "\<lparr>our_states_dict = [([VInt 5], [0, 2])], none_states = [1], our_states_list = []\<rparr>"
  have pos: "0 < CHUNKSIZE ?L" and child: "load_only_child (query_info ?L)"
    by (simp_all add: many_to_one_def)
  have prep: "prepare_states ?L ?h [0, 1, 2] = Inr ?p" by code_simp
  from fetch_total[OF pos] obtain h' tr r
    where run: "fetch_results_and_populate_states ?L ?e ?p ?h = Some (h', tr, r)" by blast
  from population_precedes_yield[OF pos run] child
  have "batch_populated_before_yield ?L ?p tr" by simp
  with prep run have one: "yields_after_batch ?L ?e ?h [0, 1, 2]"
    by (simp add: yields_after_batch_def trace_of_def)
  let ?M = "one_to_many True 2"
  let ?f = "prepare_query ?M [owned_row 100 10, owned_row 200 20, owned_row 101 10, owned_row 300 30]"
  let ?g = "store [owner 10, owner 20, owner 30]"
  let ?q = "\<lparr>our_states_dict = [], none_states = [],
             our_states_list = [([VInt 10], 0), ([VInt 20], 1), ([VInt 30], 2)]\<rparr>"
  have pos2: "0 < CHUNKSIZE ?M" and parent: "\<not> load_only_child (query_info ?M)"
    by (simp_all add: one_to_many_def)
  from fetch_total[OF pos2] obtain h2 tr2 r2
    where run2: "fetch_results_and_populate_states ?M ?f ?q ?g = Some (h2, tr2, r2)" by blast
  from population_precedes_yield[OF pos2 run2] parent
  have "yields_owned (query_info ?M) (our_states_list ?q) None tr2" by simp
  with run2 have two: "yields_owned (query_info ?M)
        [([VInt 10], 0), ([VInt 20], 1), ([VInt 30], 2)] None
        (trace_of (fetch_results_and_populate_states ?M ?f ?q ?g))"
    by (simp add: trace_of_def)
  from pos one pos2 two show ?thesis by blast
qed

section \<open>The bound lists are the slices of the sorted keys\<close>

text \<open>The executed bound lists of any run over chunks are the bindings of the first chunks,
  in order; of all of them when the run ends normally.\<close>

lemma run_chunks_executed_prefix:
  assumes "run_chunks body cs h [] = (h', tr, r)"
    and "\<And>c h h' evs r. body c h = (h', evs, r) \<Longrightarrow>
           (r \<noteq> None \<and> executed evs = []) \<or> (\<exists>bs. bind c = Inr bs \<and> executed evs = [bs])"
  shows "\<exists>m \<le> length cs. traverse bind (take m cs) = Inr (executed tr)
           \<and> (r = None \<longrightarrow> m = length cs)"
  using assms(1)
proof (induction cs arbitrary: h h' tr r)
  case Nil
  then show ?case by simp
next
  case (Cons c cs)
  obtain h1 evs r1 where b: "body c h = (h1, evs, r1)" by (metis prod_cases3)
  note sh = assms(2)[OF b]
  show ?case
  proof (cases r1)
    case (Some e)
    with b Cons.prems have tr: "tr = evs" "r = Some e"
      by (simp_all add: run_chunks_Cons del: run_chunks.simps)
    from sh show ?thesis
    proof
      assume "r1 \<noteq> None \<and> executed evs = []"
      with tr have "traverse bind (take 0 (c # cs)) = Inr (executed tr) \<and> (r = None \<longrightarrow> 0 = length (c # cs))"
        by simp
      then show ?thesis by blast
    next
      assume "\<exists>bs. bind c = Inr bs \<and> executed evs = [bs]"
      with tr have "traverse bind (take 1 (c # cs)) = Inr (executed tr)
                    \<and> (r = None \<longrightarrow> 1 = length (c # cs))"
        by auto
      moreover have "(1::nat) \<le> length (c # cs)" by simp
      ultimately show ?thesis by blast
    qed
  next
    case None
    obtain h2 t r2 where rest: "run_chunks body cs h1 [] = (h2, t, r2)" by (metis prod_cases3)
    with b None Cons.prems have tr: "tr = evs @ t" "r = r2"
      by (simp_all add: run_chunks_Cons del: run_chunks.simps)
    from sh None obtain bs where bs: "bind c = Inr bs" "executed evs = [bs]" by auto
    from Cons.IH[OF rest] obtain m where m: "m \<le> length cs"
      "traverse bind (take m cs) = Inr (executed t)" "r2 = None \<longrightarrow> m = length cs" by blast
    with tr bs have "traverse bind (take (Suc m) (c # cs)) = Inr (executed tr)
                     \<and> (r = None \<longrightarrow> Suc m = length (c # cs))"
      by simp
    moreover from m(1) have "Suc m \<le> length (c # cs)" by simp
    ultimately show ?thesis by blast
  qed
qed

lemma load_via_child_slices:
  assumes "0 < CHUNKSIZE L" and "distinct (map fst our)"
    and "load_via_child L exec our none h = Some (h', tr, r)"
    and "executed tr \<noteq> [] \<or> r = None"
  shows "\<exists>ks m. sorted_wrt key_lt ks \<and> set ks = fst ` set our
           \<and> m \<le> length (chunked (CHUNKSIZE L) ks)
           \<and> traverse (traverse (bind_key (zero_idx (query_info L))))
                (take m (chunked (CHUNKSIZE L) ks)) = Inr (executed tr)
           \<and> (r = None \<longrightarrow> m = length (chunked (CHUNKSIZE L) ks))"
proof (cases "sorted_keys (map fst our)")
  case (Inl e)
  with assms(3,4) show ?thesis by (auto simp: load_via_child_def)
next
  case (Inr ks)
  from sorted_keys_sorted[OF Inr assms(2)]
  have srt: "sorted_wrt key_lt ks" and ks: "set ks = fst ` set our" by simp_all
  from assms(1,3) Inr
  have run: "run_chunks (via_child_chunk L exec our none) (chunked (CHUNKSIZE L) ks) h [] = (h', tr, r)"
    by (simp add: load_via_child_def drain_chunked)
  from run_chunks_executed_prefix[OF run, of "traverse (bind_key (zero_idx (query_info L)))"]
    via_child_chunk_executed
  obtain m where "m \<le> length (chunked (CHUNKSIZE L) ks)"
    "traverse (traverse (bind_key (zero_idx (query_info L)))) (take m (chunked (CHUNKSIZE L) ks))
       = Inr (executed tr)"
    "r = None \<longrightarrow> m = length (chunked (CHUNKSIZE L) ks)" by blast
  with srt ks show ?thesis by blast
qed

lemma load_via_child_globally_sorted:
  assumes "0 < CHUNKSIZE L" and "distinct (map fst our)"
    and "zero_idx (query_info L) \<longrightarrow> (\<forall>k \<in> fst ` set our. length k = 1)"
    and "load_via_child L exec our none h = Some (h', tr, r)"
  shows "sorted_wrt bound_lt (concat (executed tr))"
proof (cases "executed tr = []")
  case True
  then show ?thesis by simp
next
  case False
  with load_via_child_slices[OF assms(1,2,4)] obtain ks m
    where srt: "sorted_wrt key_lt ks" and ks: "set ks = fst ` set our"
      and ex: "traverse (traverse (bind_key (zero_idx (query_info L))))
                 (take m (chunked (CHUNKSIZE L) ks)) = Inr (executed tr)"
    by blast
  let ?cs = "chunked (CHUNKSIZE L) ks"
  have "concat (take m ?cs) @ concat (drop m ?cs) = ks"
    using concat_chunked[OF assms(1), of ks] by (metis append_take_drop_id concat_append)
  with srt have pre: "sorted_wrt key_lt (concat (take m ?cs))"
    and sub: "set (concat (take m ?cs)) \<subseteq> set ks"
    by (metis sorted_wrt_append, metis Un_upper1 set_append)
  from sub ks assms(3)
  have "zero_idx (query_info L) \<longrightarrow> (\<forall>k \<in> set (concat (take m ?cs)). length k = 1)"
    by blast
  from bind_keys_sorted[OF traverse_concat[OF ex] pre this] show ?thesis .
qed

text \<open>
  C8, amended. The sort is in the other path: \<^verbatim>\<open>_load_via_child\<close> (MANYTOONE) sorts all the
  keys of the groups once, before slicing them into batches. For a positive chunk size and
  a descriptor whose \<^verbatim>\<open>zero_idx\<close> means a single lookup column: whenever a query was
  executed or the run ended normally, there is a strictly ascending list of exactly the keys
  of the groups such that the bound key lists of the executed queries are, in order, the
  bindings of its first slices of \<^verbatim>\<open>CHUNKSIZE\<close> keys, and of all its slices when the run
  ended normally. Each bound list is strictly ascending, and so is the concatenation of all
  the bound lists of the run.
  \<^verbatim>\<open>_load_via_parent\<close> does not sort: a run that ends normally has bound, batch by batch,
  the primary keys of the parents in the order of the parent list.
\<close>

theorem keys_sorted_before_batching:
  assumes "0 < CHUNKSIZE L"
    and "zero_idx (query_info L) \<longrightarrow> length (child_lookup_cols (query_info L)) = 1"
    and "prepare_states L h states = Inr p"
    and "fetch_results_and_populate_states L exec p h = Some (h', tr, r)"
  shows "(load_only_child (query_info L) \<longrightarrow>
            batches_sorted tr
            \<and> sorted_wrt bound_lt (concat (executed tr))
            \<and> (executed tr \<noteq> [] \<or> r = None \<longrightarrow>
                 (\<exists>ks m. sorted_wrt key_lt ks
                    \<and> set ks = fst ` set (our_states_dict p)
                    \<and> m \<le> length (chunked (CHUNKSIZE L) ks)
                    \<and> traverse (traverse (bind_key (zero_idx (query_info L))))
                         (take m (chunked (CHUNKSIZE L) ks)) = Inr (executed tr)
                    \<and> (r = None \<longrightarrow> m = length (chunked (CHUNKSIZE L) ks)))))
       \<and> (\<not> load_only_child (query_info L) \<longrightarrow> r = None \<longrightarrow>
            traverse (\<lambda>c. traverse (bind_key (zero_idx (query_info L))) (map fst c))
              (chunked (CHUNKSIZE L) (our_states_list p)) = Inr (executed tr))"
proof (cases "load_only_child (query_info L)")
  case True
  note dist = prepare_states_distinct[OF assms(3) True]
  from assms(4) True
  have lvc: "load_via_child L exec (our_states_dict p) (none_states p) h = Some (h', tr, r)"
    by (simp add: fetch_results_and_populate_states_def)
  from prepare_states_key_length[OF assms(3) True] assms(2)
  have "zero_idx (query_info L) \<longrightarrow> (\<forall>k \<in> fst ` set (our_states_dict p). length k = 1)"
    by simp
  from load_via_child_sorted[OF assms(1) dist this lvc]
    load_via_child_globally_sorted[OF assms(1) dist this lvc]
  have "batches_sorted tr" and "sorted_wrt bound_lt (concat (executed tr))" .
  with load_via_child_slices[OF assms(1) dist lvc] True show ?thesis by blast
next
  case False
  with assms(1,4)
  have run: "run_chunks (via_parent_chunk L exec) (chunked (CHUNKSIZE L) (our_states_list p)) h []
             = (h', tr, r)"
    by (simp add: fetch_results_and_populate_states_def load_via_parent_def drain_chunked)
  from run_chunks_executed[OF run,
         of "\<lambda>c. traverse (bind_key (zero_idx (query_info L))) (map fst c)"]
    via_parent_chunk_executed False
  show ?thesis by blast
qed

theorem keys_sorted_before_batching_witness:
  "\<exists>h' tr ks.
     fetch_results_and_populate_states (many_to_one False 2)
       (prepare_query (many_to_one False 2)
          [target_row 5 ''X'', target_row 6 ''Y'', target_row 7 ''Z''])
       \<lparr>our_states_dict = [([VInt 7], [0]), ([VInt 5], [1]), ([VInt 6], [2])],
        none_states = [], our_states_list = []\<rparr>
       (store [child_of 1 (VInt 7), child_of 2 (VInt 5), child_of 3 (VInt 6)])
     = Some (h', tr, None)
   \<and> batches_sorted tr \<and> sorted_wrt bound_lt (concat (executed tr))
   \<and> sorted_wrt key_lt ks \<and> set ks = {[VInt 5], [VInt 6], [VInt 7]}
   \<and> traverse (traverse (bind_key True)) (chunked 2 ks) = Inr (executed tr)"
proof -
  let ?L = "many_to_one False 2"
  let ?e = "prepare_query ?L [target_row 5 ''X'', target_row 6 ''Y'', target_row 7 ''Z'']"
  let ?h = "store [child_of 1 (VInt 7), child_of 2 (VInt 5), child_of 3 (VInt 6)]"
  let ?p = "\<lparr>our_states_dict = [([VInt 7], [0]), ([VInt 5], [1]), ([VInt 6], [2])],
             none_states = [], our_states_list = []\<rparr>"
  have pos: "0 < CHUNKSIZE ?L" and child: "load_only_child (query_info ?L)"
    and zi: "zero_idx (query_info ?L) \<longrightarrow> length (child_lookup_cols (query_info ?L)) = 1"
    and z: "zero_idx (query_info ?L) = True" and n: "CHUNKSIZE ?L = 2"
    by (simp_all add: many_to_one_def)
  have prep: "prepare_states ?L ?h [0, 1, 2] = Inr ?p" by code_simp
  have "map_option (\<lambda>(h, tr, r). r) (fetch_results_and_populate_states ?L ?e ?p ?h) = Some None"
    by code_simp
  then obtain h' tr where run: "fetch_results_and_populate_states ?L ?e ?p ?h = Some (h', tr, None)"
    by auto
  from keys_sorted_before_batching[OF pos zi prep run] child
  obtain ks m where "batches_sorted tr" "sorted_wrt bound_lt (concat (executed tr))"
    "sorted_wrt key_lt ks"
    "set ks = fst ` set (our_states_dict ?p)"
    "traverse (traverse (bind_key (zero_idx (query_info ?L)))) (take m (chunked (CHUNKSIZE ?L) ks))
       = Inr (executed tr)"
    "m = length (chunked (CHUNKSIZE ?L) ks)"
    by auto
  with run z n show ?thesis by auto
qed

section \<open>The value two parents with the same key receive\<close>

lemma run_chunks_untouched:
  assumes "run_chunks body cs h [] = (h', tr, None)"
    and "\<And>c h h' evs. c \<in> set cs \<Longrightarrow> body c h = (h', evs, None)
           \<Longrightarrow> last_write (writes evs) a = None"
  shows "last_write (writes tr) a = None"
  using assms
proof (induction cs arbitrary: h h' tr)
  case Nil
  then show ?case by simp
next
  case (Cons c cs)
  obtain h1 evs r1 where b: "body c h = (h1, evs, r1)" by (metis prod_cases3)
  obtain h2 t r2 where rest: "run_chunks body cs h1 [] = (h2, t, r2)" by (metis prod_cases3)
  from b rest Cons.prems(1) have r1: "r1 = None" and tr: "tr = evs @ t" and r2: "r2 = None"
    by (auto simp add: run_chunks_Cons simp del: run_chunks.simps split: option.splits)
  from Cons.prems(2)[of c h h1 evs] b r1 have "last_write (writes evs) a = None" by simp
  moreover have "last_write (writes t) a = None"
    by (rule Cons.IH[OF rest[unfolded r2]]) (rule Cons.prems(2), auto)
  ultimately show ?case by (simp add: tr last_write_append)
qed

text \<open>In a run that ends normally, the last assignment to a parent is the one made in the
  last chunk that assigns to it.\<close>

lemma run_chunks_last_chunk:
  assumes "run_chunks body cs h [] = (h', tr, None)"
    and "\<And>c h h' evs. c \<in> set cs \<Longrightarrow> body c h = (h', evs, None)
           \<Longrightarrow> (P c \<and> (\<exists>v. R c v \<and> last_write (writes evs) a = Some v))
               \<or> (\<not> P c \<and> last_write (writes evs) a = None)"
    and "\<exists>c \<in> set cs. P c"
  shows "\<exists>c \<in> set cs. \<exists>v. P c \<and> R c v \<and> last_write (writes tr) a = Some v"
  using assms
proof (induction cs arbitrary: h h' tr)
  case Nil
  then show ?case by simp
next
  case (Cons c cs)
  obtain h1 evs r1 where b: "body c h = (h1, evs, r1)" by (metis prod_cases3)
  obtain h2 t r2 where rest: "run_chunks body cs h1 [] = (h2, t, r2)" by (metis prod_cases3)
  from b rest Cons.prems(1) have r1: "r1 = None" and tr: "tr = evs @ t" and r2: "r2 = None"
    by (auto simp add: run_chunks_Cons simp del: run_chunks.simps split: option.splits)
  have step: "(P c' \<and> (\<exists>v. R c' v \<and> last_write (writes e) a = Some v))
               \<or> (\<not> P c' \<and> last_write (writes e) a = None)"
    if "c' \<in> set cs" "body c' h0 = (h3, e, None)" for c' h0 h3 e
    using Cons.prems(2)[of c' h0 h3 e] that by simp
  show ?case
  proof (cases "\<exists>c' \<in> set cs. P c'")
    case True
    have "\<exists>c' \<in> set cs. \<exists>v. P c' \<and> R c' v \<and> last_write (writes t) a = Some v"
    proof (rule Cons.IH[OF rest[unfolded r2] _ True])
      show "(P c' \<and> (\<exists>v. R c' v \<and> last_write (writes e) a = Some v))
            \<or> (\<not> P c' \<and> last_write (writes e) a = None)"
        if "c' \<in> set cs" "body c' h0 = (h3, e, None)" for c' h0 h3 e
        using step[OF that] .
    qed
    then obtain c' v
      where "c' \<in> set cs" "P c'" "R c' v" "last_write (writes t) a = Some v" by blast
    then show ?thesis by (auto simp: tr last_write_append)
  next
    case False
    with Cons.prems(3) have "P c" by simp
    with Cons.prems(2)[of c h h1 evs] b r1 obtain v
      where v: "R c v" "last_write (writes evs) a = Some v" by auto
    have "last_write (writes t) a = None"
    proof (rule run_chunks_untouched[OF rest[unfolded r2]])
      show "last_write (writes e) a = None" if "c' \<in> set cs" "body c' h0 = (h3, e, None)"
        for c' h0 h3 e
        using step[OF that] False that(1) by blast
    qed
    with v \<open>P c\<close> show ?thesis by (auto simp: tr last_write_append)
  qed
qed

lemma filter_eq_last: "k \<in> set c \<Longrightarrow> filter (\<lambda>x. x = k) c \<noteq> [] \<and> last (filter (\<lambda>x. x = k) c) = k"
proof -
  assume "k \<in> set c"
  then have ne: "filter (\<lambda>x. x = k) c \<noteq> []" by (auto simp: filter_empty_conv)
  then have "last (filter (\<lambda>x. x = k) c) \<in> set (filter (\<lambda>x. x = k) c)" by (rule last_in_set)
  with ne show ?thesis by simp
qed

text \<open>The value \<^verbatim>\<open>_load_via_child\<close> assigns for a key of the chunk is made from the rows
  fetched for the chunk: the last of them with that primary key, else \<^verbatim>\<open>None\<close>.\<close>

lemma via_child_chunk_value:
  assumes "via_child_chunk L exec our none c h = (h', evs, None)"
    and only: "\<forall>k'. a \<in> set (group_of our k') \<longleftrightarrow> k' = k"
    and "a \<notin> set none"
  shows "(k \<in> set c \<and> (\<exists>v. (\<exists>bs rows. traverse (bind_key (zero_idx (query_info L))) c = Inr bs
                                \<and> exec bs = Inr rows \<and> v = matched_value L rows k)
                         \<and> last_write (writes evs) a = Some v))
       \<or> (k \<notin> set c \<and> last_write (writes evs) a = None)"
proof -
  from via_child_chunk_data[OF assms(1)] obtain bs rows d
    where bs: "traverse (bind_key (zero_idx (query_info L))) c = Inr bs"
      and rows: "exec bs = Inr rows"
      and d: "child_data (target_mapper L) rows [] = Inr d"
      and w: "writes evs = child_writes (uselist L) our none d c" by blast
  from only have flt: "filter (\<lambda>k'. a \<in> set (group_of our k')) c = filter (\<lambda>k'. k' = k) c"
    by simp
  from child_data_lookup[OF d, of k]
  have "map_of d k = matched_row L rows k"
    by (simp add: matched_row_def split: list.splits)
  then have val: "child_value (uselist L) d k = matched_value L rows k"
    by (simp add: child_value_def related_obj_def matched_value_def)
  show ?thesis
  proof (cases "k \<in> set c")
    case True
    from filter_eq_last[OF True] val assms(3)
    have "last_write (writes evs) a = Some (matched_value L rows k)"
      by (auto simp: w last_write_child_writes flt split: list.splits)
    with True bs rows show ?thesis by blast
  next
    case False
    then have "filter (\<lambda>k'. k' = k) c = []" by (auto simp: filter_empty_conv)
    with assms(3) have "last_write (writes evs) a = None"
      by (simp add: w last_write_child_writes flt)
    with False show ?thesis by blast
  qed
qed

lemma shared_key_value:
  assumes pos: "0 < CHUNKSIZE L" and child: "load_only_child (query_info L)"
    and prep: "prepare_states L h states = Inr p"
    and run: "fetch_results_and_populate_states L exec p h = Some (h', tr, None)"
    and a: "a \<in> set states" and b: "b \<in> set states"
    and ka: "traverse (getitem (h a)) (child_lookup_cols (query_info L)) = Inr k"
    and kb: "traverse (getitem (h b)) (child_lookup_cols (query_info L)) = Inr k"
    and nn: "VNone \<notin> set k"
    and bk: "bind_key (zero_idx (query_info L)) k = Inr bk"
  shows "\<exists>bs rows. bs \<in> set (executed tr) \<and> bk \<in> set bs \<and> exec bs = Inr rows
           \<and> h' a (key L) = Some (matched_value L rows k)
           \<and> h' b (key L) = Some (matched_value L rows k)"
proof -
  let ?our = "our_states_dict p" and ?none = "none_states p"
  let ?zi = "zero_idx (query_info L)"
  let ?body = "via_child_chunk L exec ?our ?none"
  note cs = prepare_states_child[OF prep child]
  have G: "group_of ?our k' = filter (\<lambda>x. traverse (getitem (h x)) (child_lookup_cols (query_info L)) = Inr k'
             \<and> VNone \<notin> set k') states" for k'
    using collect_states_groups[OF cs, of k'] by (simp add: group_of_def)
  have N: "?none = filter (\<lambda>x. \<exists>k'. traverse (getitem (h x)) (child_lookup_cols (query_info L)) = Inr k'
             \<and> VNone \<in> set k') states"
    using collect_states_none[OF cs] by simp
  have only_a: "\<forall>k'. a \<in> set (group_of ?our k') \<longleftrightarrow> k' = k"
    using G a ka nn by auto
  have same_groups: "\<forall>k'. a \<in> set (group_of ?our k') \<longleftrightarrow> b \<in> set (group_of ?our k')"
    using G a b ka kb by auto
  have notnone: "a \<notin> set ?none" "b \<notin> set ?none"
    using N ka kb nn by auto
  have kin: "k \<in> fst ` set ?our"
    using collect_states_keys[OF cs] a ka nn by auto
  from run child obtain ks where sk: "sorted_keys (map fst ?our) = Inr ks"
    and lvc: "load_via_child L exec ?our ?none h = Some (h', tr, None)"
    by (cases "sorted_keys (map fst ?our)")
       (auto simp: fetch_results_and_populate_states_def load_via_child_def)
  from sorted_keys_sorted[OF sk prepare_states_distinct[OF prep child]]
  have ks: "set ks = fst ` set ?our" by simp
  from lvc sk pos
  have rc: "run_chunks ?body (chunked (CHUNKSIZE L) ks) h [] = (h', tr, None)"
    by (simp add: load_via_child_def drain_chunked)
  from kin ks in_chunked[OF pos, of k ks]
  have ex: "\<exists>c \<in> set (chunked (CHUNKSIZE L) ks). k \<in> set c" by auto
  let ?R = "\<lambda>c v. \<exists>bs rows. traverse (bind_key ?zi) c = Inr bs
                      \<and> exec bs = Inr rows \<and> v = matched_value L rows k"
  have "\<exists>c \<in> set (chunked (CHUNKSIZE L) ks). \<exists>v. k \<in> set c \<and> ?R c v
          \<and> last_write (writes tr) a = Some v"
  proof (rule run_chunks_last_chunk[OF rc _ ex])
    show "(k \<in> set c \<and> (\<exists>v. ?R c v \<and> last_write (writes evs) a = Some v))
          \<or> (k \<notin> set c \<and> last_write (writes evs) a = None)"
      if "?body c h0 = (h1, evs, None)" for c h0 h1 evs
      using via_child_chunk_value[OF that only_a notnone(1)] .
  qed
  then obtain c bs rows where c: "c \<in> set (chunked (CHUNKSIZE L) ks)" "k \<in> set c"
    and bs: "traverse (bind_key ?zi) c = Inr bs" and rows: "exec bs = Inr rows"
    and va: "last_write (writes tr) a = Some (matched_value L rows k)" by blast
  have "last_write (writes tr) a = last_write (writes tr) b"
    by (rule run_chunks_same[OF rc]) (rule via_child_chunk_same[OF _ same_groups notnone])
  with va have vb: "last_write (writes tr) b = Some (matched_value L rows k)" by simp
  from load_via_child_replay[OF lvc] va vb
  have heap: "h' a (key L) = Some (matched_value L rows k)"
    "h' b (key L) = Some (matched_value L rows k)"
    by (simp_all add: assign_all_at)
  from run_chunks_executed[OF rc, of "traverse (bind_key ?zi)"] via_child_chunk_executed
  have "traverse (traverse (bind_key ?zi)) (chunked (CHUNKSIZE L) ks) = Inr (executed tr)"
    by blast
  from bound_in_chunk[OF this c(1)] bs have "bs \<in> set (executed tr)" by auto
  moreover from bound_in_chunk[OF bs c(2)] bk have "bk \<in> set bs" by auto
  ultimately show ?thesis using rows heap by blast
qed

text \<open>
  C7. In the MANYTOONE path, for a run that ends normally (positive chunk size, a descriptor
  whose \<^verbatim>\<open>zero_idx\<close> means a single lookup column): two parents with the same foreign-key
  tuple without a null are in the one group of that tuple; the key is bound exactly once
  over all the executed queries; and both parents end with the same matched child in the
  relationship field: the value made from the rows that the query bound to the key
  returned, the last of these rows whose primary-key tuple is the key (\<^verbatim>\<open>None\<close> if there
  is none). In Scenario A the parents 1 and 3 get \<^verbatim>\<open>{id: 5, name: 'X'}\<close>, parent 2 gets
  \<^verbatim>\<open>None\<close>, and the one query is executed with the bound keys \<^verbatim>\<open>[5]\<close>.
\<close>

theorem shared_foreign_key_one_group:
  assumes "0 < CHUNKSIZE L" and "load_only_child (query_info L)"
    and "zero_idx (query_info L) \<longrightarrow> length (child_lookup_cols (query_info L)) = 1"
    and "prepare_states L h states = Inr p"
    and "fetch_results_and_populate_states L exec p h = Some (h', tr, None)"
    and "a \<in> set states" and "b \<in> set states"
    and "traverse (getitem (h a)) (child_lookup_cols (query_info L)) = Inr k"
    and "traverse (getitem (h b)) (child_lookup_cols (query_info L)) = Inr k"
    and "VNone \<notin> set k"
  shows "a \<in> set (group_of (our_states_dict p) k) \<and> b \<in> set (group_of (our_states_dict p) k)
       \<and> (\<exists>bk. bind_key (zero_idx (query_info L)) k = Inr bk
                \<and> count_list (concat (executed tr)) bk = 1
                \<and> (\<exists>bs rows. bs \<in> set (executed tr) \<and> bk \<in> set bs \<and> exec bs = Inr rows
                      \<and> h' a (key L) = Some (matched_value L rows k)
                      \<and> h' b (key L) = Some (matched_value L rows k)))
       \<and> h' a (key L) \<noteq> None \<and> h' a (key L) = h' b (key L)
       \<and> observe (load (many_to_one False 500)
                    (prepare_query (many_to_one False 500) [target_row 5 ''X''])
                    (store [child_of 1 (VInt 5), child_of 2 VNone, child_of 3 (VInt 5)]) [0, 1, 2])
            ''parent'' [0, 1, 2]
          = Some ([Some (VDict (target_row 5 ''X'')), Some VNone,
                   Some (VDict (target_row 5 ''X''))],
                  [Execute [Scalar (VInt 5)],
                   Populate 0 (VDict (target_row 5 ''X'')),
                   Populate 2 (VDict (target_row 5 ''X'')),
                   Populate 1 VNone,
                   Yield (target_row 5 ''X'')],
                  None)"
proof -
  note gen = shared_key_general[OF assms]
  from gen(2) obtain bk where bk: "bind_key (zero_idx (query_info L)) k = Inr bk"
    "count_list (concat (executed tr)) bk = 1" by blast
  from shared_key_value[OF assms(1,2,4,5,6,7,8,9,10) bk(1)] bk
  have "\<exists>bk. bind_key (zero_idx (query_info L)) k = Inr bk
                \<and> count_list (concat (executed tr)) bk = 1
                \<and> (\<exists>bs rows. bs \<in> set (executed tr) \<and> bk \<in> set bs \<and> exec bs = Inr rows
                      \<and> h' a (key L) = Some (matched_value L rows k)
                      \<and> h' b (key L) = Some (matched_value L rows k))"
    by blast
  with gen(1,3) scenario_A show ?thesis by (intro conjI) blast+
qed

theorem shared_foreign_key_one_group_witness:
  "\<exists>h' tr.
     fetch_results_and_populate_states (many_to_one False 500)
       (prepare_query (many_to_one False 500) [target_row 6 ''Y'', target_row 5 ''X''])
       \<lparr>our_states_dict = [([VInt 5], [0, 2]), ([VInt 6], [1])], none_states = [],
        our_states_list = []\<rparr>
       (store [child_of 1 (VInt 5), child_of 2 (VInt 6), child_of 3 (VInt 5)])
     = Some (h', tr, None)
     \<and> count_list (concat (executed tr)) (Scalar (VInt 5)) = 1
     \<and> h' 0 ''parent'' = Some (VDict (target_row 5 ''X''))
     \<and> h' 2 ''parent'' = Some (VDict (target_row 5 ''X''))"
proof -
  let ?L = "many_to_one False 500"
  let ?q = "[target_row 6 ''Y'', target_row 5 ''X'']"
  let ?e = "prepare_query ?L ?q"
  let ?h = "store [child_of 1 (VInt 5), child_of 2 (VInt 6), child_of 3 (VInt 5)]"
  let ?p = "\<lparr>our_states_dict = [([VInt 5], [0, 2]), ([VInt 6], [1])], none_states = [],
             our_states_list = []\<rparr>"
  have pos: "0 < CHUNKSIZE ?L" and child: "load_only_child (query_info ?L)"
    and zi: "zero_idx (query_info ?L) \<longrightarrow> length (child_lookup_cols (query_info ?L)) = 1"
    and key: "key ?L = ''parent''" and z: "zero_idx (query_info ?L)"
    and pk: "primary_key (target_mapper ?L) = pk_cols (query_info ?L)"
    by (simp_all add: many_to_one_def)
  have prep: "prepare_states ?L ?h [0, 1, 2] = Inr ?p" by code_simp
  have ok: "map_option (\<lambda>(h, tr, r). r) (fetch_results_and_populate_states ?L ?e ?p ?h) = Some None"
    by code_simp
  then obtain h' tr where run: "fetch_results_and_populate_states ?L ?e ?p ?h = Some (h', tr, None)"
    by auto
  have k0: "traverse (getitem (?h 0)) (child_lookup_cols (query_info ?L)) = Inr [VInt 5]"
    and k2: "traverse (getitem (?h 2)) (child_lookup_cols (query_info ?L)) = Inr [VInt 5]"
    by (simp_all add: many_to_one_def store_def child_of_def getitem_def)
  have bind: "bind_key (zero_idx (query_info ?L)) [VInt 5] = Inr (Scalar (VInt 5))"
    using z by (simp add: bind_key_def)
  from shared_foreign_key_one_group[OF pos child zi prep run _ _ k0 k2] bind
  obtain bs rows where cnt: "count_list (concat (executed tr)) (Scalar (VInt 5)) = 1"
    and bs: "Scalar (VInt 5) \<in> set bs" and rows: "?e bs = Inr rows"
    and v0: "h' 0 (key ?L) = Some (matched_value ?L rows [VInt 5])"
    and v2: "h' 2 (key ?L) = Some (matched_value ?L rows [VInt 5])"
    by auto
  from prepare_query_rows[OF rows bind bs]
  have "matched_row ?L rows [VInt 5] = matched_row ?L ?q [VInt 5]"
    by (simp add: matched_row_def get_primary_key_tuple_def pk)
  then have "matched_value ?L rows [VInt 5] = matched_value ?L ?q [VInt 5]"
    by (simp add: matched_value_def)
  also have "\<dots> = VDict (target_row 5 ''X'')" by code_simp
  finally have "matched_value ?L rows [VInt 5] = VDict (target_row 5 ''X'')" .
  with v0 v2 key cnt run show ?thesis by simp
qed

section \<open>Assigned values and cardinality\<close>

text \<open>Whatever the run, every value assigned to a relationship field has the shape of the
  relationship's cardinality: a list of rows for a plural relationship, \<^verbatim>\<open>None\<close> or one
  row for a singular one. (A MANYTOONE relationship is singular.)\<close>

lemma child_writes_cardinality:
  assumes "\<not> ul" and "(a, v) \<in> set (child_writes ul our none d c)"
  shows "v = VNone \<or> (\<exists>r. v = VDict r)"
  using assms
  by (auto simp: child_writes_def child_value_def related_obj_def split: option.splits)

lemma populate_parent_cardinality:
  assumes "populate_parent L d (k, a) h = (h', evs, r)"
    and "\<And>rs. map_of d k = Some rs \<Longrightarrow> rs \<noteq> []"
    and "(b, v) \<in> set (writes evs)"
  shows "if uselist L then (\<exists>rs. v = VList (map VDict rs)) else (v = VNone \<or> (\<exists>r. v = VDict r))"
proof (cases "data_get (uselist L) d k")
  case None
  then have "\<not> uselist L" by (auto simp: data_get_def empty_result_def split: option.splits if_splits)
  with None assms(1,3) show ?thesis
    by (auto simp: populate_parent_def split: if_splits)
next
  case (Some rs)
  show ?thesis
  proof (cases rs)
    case Nil
    with Some assms(2) have "uselist L"
      by (auto simp: data_get_def empty_result_def split: option.splits if_splits)
    with Some Nil assms(1,3) show ?thesis
      by (auto simp: populate_parent_def split: if_splits intro: exI[of _ "[]"])
  next
    case (Cons r rs')
    with Some assms(1,3) show ?thesis
      by (auto simp: populate_parent_def split: if_splits intro: exI[of _ "r # rs'"])
  qed
qed

lemma populate_parents_cardinality:
  assumes "populate_parents L d ps h = (h', evs, r)"
    and "\<And>k rs. map_of d k = Some rs \<Longrightarrow> rs \<noteq> []"
    and "(b, v) \<in> set (writes evs)"
  shows "if uselist L then (\<exists>rs. v = VList (map VDict rs)) else (v = VNone \<or> (\<exists>r. v = VDict r))"
  using assms(1,3)
proof (induction ps arbitrary: h h' evs r)
  case Nil
  then show ?case by simp
next
  case (Cons p ps)
  obtain k a where p: "p = (k, a)" by (cases p)
  obtain h1 e1 r1 where p1: "populate_parent L d (k, a) h = (h1, e1, r1)" by (metis prod_cases3)
  obtain h2 e2 r2 where p2: "populate_parents L d ps h1 = (h2, e2, r2)" by (metis prod_cases3)
  from Cons.prems(1) p p1 p2 have "evs = e1 \<or> evs = e1 @ e2"
    by (auto split: option.splits)
  with Cons.prems(2) have "(b, v) \<in> set (writes e1) \<or> (b, v) \<in> set (writes e2)" by auto
  then show ?case
  proof
    assume "(b, v) \<in> set (writes e1)"
    from populate_parent_cardinality[OF p1 assms(2) this] show ?thesis .
  next
    assume "(b, v) \<in> set (writes e2)"
    from Cons.IH[OF p2 this] show ?thesis .
  qed
qed

lemma via_parent_chunk_cardinality:
  assumes "via_parent_chunk L exec c h = (h', evs, r)" and "(b, v) \<in> set (writes evs)"
  shows "if uselist L then (\<exists>rs. v = VList (map VDict rs)) else (v = VNone \<or> (\<exists>r. v = VDict r))"
proof -
  from assms obtain bs rows d evs'
    where d: "parent_data (query_info L) rows [] = Inr d"
      and pp: "populate_parents L d c h = (h', evs', r)" and evs: "evs = Execute bs # evs'"
    by (auto simp: via_parent_chunk_def split: sum.splits prod.splits)
  have ne: "rs \<noteq> []" if "map_of d k = Some rs" for k rs
    using parent_data_keys[OF d that] by simp
  from assms(2) evs have "(b, v) \<in> set (writes evs')" by simp
  from populate_parents_cardinality[OF pp ne this] show ?thesis .
qed

lemma assigned_values_have_cardinality:
  assumes "load_only_child (query_info L) \<longrightarrow> \<not> uselist L"
    and "fetch_results_and_populate_states L exec p h = Some (h', tr, r)"
    and "(a, v) \<in> set (writes tr)"
  shows "if uselist L then (\<exists>rs. v = VList (map VDict rs)) else (v = VNone \<or> (\<exists>r. v = VDict r))"
proof -
  define C where "C v \<longleftrightarrow> (if uselist L then (\<exists>rs. v = VList (map VDict rs))
                          else (v = VNone \<or> (\<exists>r. v = VDict r)))" for v
  let ?I = "\<lambda>(h1 :: heap) tr1. \<forall>w \<in> set (writes tr1). C (snd w)"
  have "?I h' tr"
  proof (cases "load_only_child (query_info L)")
    case True
    with assms(1) have single: "\<not> uselist L" by simp
    show ?thesis
    proof (cases "sorted_keys (map fst (our_states_dict p))")
      case (Inl e)
      with assms(2) True show ?thesis
        by (simp add: fetch_results_and_populate_states_def load_via_child_def)
    next
      case (Inr ks)
      with assms(2) True
      have dr: "drain (CHUNKSIZE L) (via_child_chunk L exec (our_states_dict p) (none_states p))
                  ks h [] = Some (h', tr, r)"
        by (simp add: fetch_results_and_populate_states_def load_via_child_def)
      show ?thesis
      proof (rule drain_invariant[OF dr, where I = ?I])
        show "?I h []" by simp
        show "?I h1 (tr1 @ evs)"
          if "?I h0 tr1"
            "via_child_chunk L exec (our_states_dict p) (none_states p) c h0 = (h1, evs, r1)"
          for c h0 tr1 h1 evs r1
        proof -
          have "C (snd w)" if "w \<in> set (writes evs)" for w
          proof -
            from via_child_chunk_writes[OF \<open>via_child_chunk L exec (our_states_dict p)
                  (none_states p) c h0 = (h1, evs, r1)\<close>] that
            obtain d where "(fst w, snd w) \<in> set (child_writes (uselist L) (our_states_dict p)
                                           (none_states p) d c)"
              by auto
            from child_writes_cardinality[OF single this] single show ?thesis
              by (simp add: C_def)
          qed
          with that(1) show ?thesis by auto
        qed
      qed
    qed
  next
    case False
    with assms(2)
    have dr: "drain (CHUNKSIZE L) (via_parent_chunk L exec) (our_states_list p) h []
              = Some (h', tr, r)"
      by (simp add: fetch_results_and_populate_states_def load_via_parent_def)
    show ?thesis
    proof (rule drain_invariant[OF dr, where I = ?I])
      show "?I h []" by simp
      show "?I h1 (tr1 @ evs)"
        if "?I h0 tr1" "via_parent_chunk L exec c h0 = (h1, evs, r1)" for c h0 tr1 h1 evs r1
      proof -
        have "C (snd w)" if "w \<in> set (writes evs)" for w
          using via_parent_chunk_cardinality[OF \<open>via_parent_chunk L exec c h0 = (h1, evs, r1)\<close>,
                  of "fst w" "snd w"] that
          by (simp add: C_def)
        with that(1) show ?thesis by auto
      qed
    qed
  qed
  with assms(3) have "C v" by force
  then show ?thesis by (simp add: C_def)
qed

end
